theory Spec2Isabelle
  imports Main
begin

section \<open>Exceptions, strings and the standard library\<close>

text \<open>
  The program is the single module \<^verbatim>\<open>f1_calendar_sync.py\<close>. Exceptions are values:
  a function that can raise returns \<open>py_error + 'a\<close>, with \<open>Inl\<close> the exception that
  leaves the function. \<open>HttpError\<close> is the provider error of the calendar client,
  \<open>ValueError\<close> and \<open>TypeError\<close> are the built-in ones.
\<close>

datatype py_error = ValueError | TypeError | HttpError

text \<open>
  Python strings are modelled as \<open>string\<close>; the feed is ASCII in every field the
  program inspects character by character.
\<close>

definition is_digit :: "char \<Rightarrow> bool" where
  "is_digit c = (48 \<le> (of_char c :: nat) \<and> (of_char c :: nat) \<le> 57)"

definition digit_val :: "char \<Rightarrow> nat" where
  "digit_val c = (of_char c :: nat) - 48"

definition digit_char :: "nat \<Rightarrow> char" where
  "digit_char n = ''0123456789'' ! (n mod 10)"

text \<open>A run of decimal digits of fixed width, as \<^verbatim>\<open>fromisoformat\<close> reads its fields.\<close>

definition digits :: "string \<Rightarrow> nat option" where
  "digits s =
     (if s = [] then None
      else if list_all is_digit s then Some (foldl (\<lambda>a c. 10 * a + digit_val c) 0 s)
      else None)"

text \<open>\<^verbatim>\<open>s.replace(c, new)\<close> for a pattern of one character: every occurrence is rewritten.\<close>

definition str_replace :: "char \<Rightarrow> string \<Rightarrow> string \<Rightarrow> string" where
  "str_replace c new s = concat (map (\<lambda>x. if x = c then new else [x]) s)"

text \<open>\<^verbatim>\<open>s.rsplit(sep, 1)\<close>: split once at the last separator, or the whole string alone.\<close>

definition rsplit1 :: "char \<Rightarrow> string \<Rightarrow> string list" where
  "rsplit1 sep s =
     (if sep \<in> set s
      then [rev (tl (dropWhile (\<lambda>x. x \<noteq> sep) (rev s))), rev (takeWhile (\<lambda>x. x \<noteq> sep) (rev s))]
      else [s])"

text \<open>\<^verbatim>\<open>s.strip(chars)\<close>: remove the listed characters from both ends.\<close>

definition strip_chars :: "string \<Rightarrow> string \<Rightarrow> string" where
  "strip_chars cs s = rev (dropWhile (\<lambda>x. x \<in> set cs) (rev (dropWhile (\<lambda>x. x \<in> set cs) s)))"

text \<open>\<^verbatim>\<open>sep.join(parts)\<close>.\<close>

fun join :: "string \<Rightarrow> string list \<Rightarrow> string" where
  "join sep [] = []"
| "join sep [p] = p"
| "join sep (p # q # ps) = p @ sep @ join sep (q # ps)"

text \<open>
  \<^verbatim>\<open>s.title()\<close> on ASCII text: a letter that follows a letter is lowered, any other
  letter is raised.
\<close>

definition is_upper :: "char \<Rightarrow> bool" where
  "is_upper c = (65 \<le> (of_char c :: nat) \<and> (of_char c :: nat) \<le> 90)"

definition is_lower :: "char \<Rightarrow> bool" where
  "is_lower c = (97 \<le> (of_char c :: nat) \<and> (of_char c :: nat) \<le> 122)"

definition to_upper :: "char \<Rightarrow> char" where
  "to_upper c = (if is_lower c then char_of ((of_char c :: nat) - 32) else c)"

definition to_lower :: "char \<Rightarrow> char" where
  "to_lower c = (if is_upper c then char_of ((of_char c :: nat) + 32) else c)"

fun title_from :: "bool \<Rightarrow> string \<Rightarrow> string" where
  "title_from prev [] = []"
| "title_from prev (c # cs) =
     (if is_lower c \<or> is_upper c
      then (if prev then to_lower c else to_upper c) # title_from True cs
      else c # title_from False cs)"

definition title :: "string \<Rightarrow> string" where
  "title s = title_from False s"

text \<open>\<^verbatim>\<open>str(n)\<close> for an integer, as an f-string formats it.\<close>

fun str_nat :: "nat \<Rightarrow> string" where
  "str_nat n = (if n < 10 then [digit_char n] else str_nat (n div 10) @ [digit_char (n mod 10)])"

definition str_int :: "int \<Rightarrow> string" where
  "str_int i = (if i < 0 then CHR ''-'' # str_nat (nat (- i)) else str_nat (nat i))"

section \<open>Dates and times\<close>

text \<open>
  A \<^verbatim>\<open>datetime\<close> object: the calendar fields and \<^verbatim>\<open>tzinfo\<close>. \<open>None\<close> is a naive
  value; \<open>Some off\<close> is an aware one whose UTC offset is \<open>off\<close> microseconds.
\<close>

record datetime =
  year :: nat
  month :: nat
  day :: nat
  hour :: nat
  minute :: nat
  second :: nat
  microsecond :: nat
  tzinfo :: "int option"

definition is_leap :: "nat \<Rightarrow> bool" where
  "is_leap y = (y mod 4 = 0 \<and> (y mod 400 = 0 \<or> y mod 100 \<noteq> 0))"

definition days_in_month :: "nat \<Rightarrow> nat \<Rightarrow> nat" where
  "days_in_month y m =
     (if m = 2 then (if is_leap y then 29 else 28)
      else if m = 4 \<or> m = 6 \<or> m = 9 \<or> m = 11 then 30 else 31)"

definition days_before_year :: "nat \<Rightarrow> nat" where
  "days_before_year y = (y - 1) * 365 + (y - 1) div 4 - (y - 1) div 100 + (y - 1) div 400"

definition days_before_month :: "nat \<Rightarrow> nat \<Rightarrow> nat" where
  "days_before_month y m = sum_list (map (days_in_month y) [1..<m])"

definition ymd2ord :: "nat \<Rightarrow> nat \<Rightarrow> nat \<Rightarrow> nat" where
  "ymd2ord y m d = days_before_year y + days_before_month y m + d"

text \<open>
  The constructor checks every field, as \<^verbatim>\<open>datetime(...)\<close> and \<^verbatim>\<open>timezone(...)\<close> do:
  a field out of range, or an offset of a day or more, raises \<^verbatim>\<open>ValueError\<close>.
\<close>

definition valid_datetime :: "datetime \<Rightarrow> bool" where
  "valid_datetime dt =
     (1 \<le> year dt \<and> year dt \<le> 9999 \<and> 1 \<le> month dt \<and> month dt \<le> 12 \<and>
      1 \<le> day dt \<and> day dt \<le> days_in_month (year dt) (month dt) \<and>
      hour dt < 24 \<and> minute dt < 60 \<and> second dt < 60 \<and> microsecond dt < 1000000 \<and>
      (case tzinfo dt of None \<Rightarrow> True
       | Some off \<Rightarrow> - 86400000000 < off \<and> off < 86400000000))"

definition new_datetime :: "datetime \<Rightarrow> py_error + datetime" where
  "new_datetime dt = (if valid_datetime dt then Inr dt else Inl ValueError)"

text \<open>
  \<^verbatim>\<open>dt.replace(hour=h, minute=m, second=s)\<close> builds a new object through the same
  constructor, so an hour of 24 or more raises \<^verbatim>\<open>ValueError\<close>.
\<close>

definition replace_hour :: "datetime \<Rightarrow> nat \<Rightarrow> py_error + datetime" where
  "replace_hour dt h = new_datetime (dt\<lparr>hour := h\<rparr>)"

definition replace_hms :: "datetime \<Rightarrow> nat \<Rightarrow> nat \<Rightarrow> nat \<Rightarrow> py_error + datetime" where
  "replace_hms dt h m s = new_datetime (dt\<lparr>hour := h, minute := m, second := s\<rparr>)"

text \<open>
  The point on the UTC time line, in microseconds: the proleptic ordinal of the day,
  the time of day, less the offset. A naive value is read as UTC, which is what the
  \<^verbatim>\<open>timeZone\<close> field the program sends with every event says.
\<close>

definition instant :: "datetime \<Rightarrow> int" where
  "instant dt =
     (((int (ymd2ord (year dt) (month dt) (day dt)) * 24 + int (hour dt)) * 60
        + int (minute dt)) * 60 + int (second dt)) * 1000000 + int (microsecond dt)
     - (case tzinfo dt of None \<Rightarrow> 0 | Some off \<Rightarrow> off)"

text \<open>
  \<^verbatim>\<open>a < b\<close> on datetimes: two aware values compare as instants, two naive ones by
  their fields, and a naive value against an aware one raises \<^verbatim>\<open>TypeError\<close>.
\<close>

definition dt_less :: "datetime \<Rightarrow> datetime \<Rightarrow> py_error + bool" where
  "dt_less a b =
     (if (tzinfo a = None) = (tzinfo b = None) then Inr (instant a < instant b)
      else Inl TypeError)"

text \<open>
  \<^verbatim>\<open>datetime.fromisoformat\<close>, for the grammar its documentation gives:
  \<^verbatim>\<open>YYYY-MM-DD[*HH[:MM[:SS[.fff[fff]]]][+HH:MM[:SS[.ffffff]]]]\<close>, where \<^verbatim>\<open>*\<close> is any one
  character and the sign of the offset is \<^verbatim>\<open>+\<close> or \<^verbatim>\<open>-\<close>. Anything else raises
  \<^verbatim>\<open>ValueError\<close>.
\<close>

definition field :: "nat \<Rightarrow> nat \<Rightarrow> string \<Rightarrow> nat option" where
  "field k n s = digits (take n (drop k s))"

definition parse_isoformat_date :: "string \<Rightarrow> (nat \<times> nat \<times> nat) option" where
  "parse_isoformat_date s =
     (if length s = 10 \<and> s ! 4 = CHR ''-'' \<and> s ! 7 = CHR ''-''
      then (case (field 0 4 s, field 5 2 s, field 8 2 s) of
              (Some y, Some m, Some d) \<Rightarrow> Some (y, m, d)
            | _ \<Rightarrow> None)
      else None)"

definition parse_hh_mm_ss_ff :: "string \<Rightarrow> (nat \<times> nat \<times> nat \<times> nat) option" where
  "parse_hh_mm_ss_ff s =
     (let n = length s in
      if n = 2 then
        (case field 0 2 s of Some h \<Rightarrow> Some (h, 0, 0, 0) | None \<Rightarrow> None)
      else if n = 5 \<and> s ! 2 = CHR '':'' then
        (case (field 0 2 s, field 3 2 s) of
           (Some h, Some m) \<Rightarrow> Some (h, m, 0, 0) | _ \<Rightarrow> None)
      else if n = 8 \<and> s ! 2 = CHR '':'' \<and> s ! 5 = CHR '':'' then
        (case (field 0 2 s, field 3 2 s, field 6 2 s) of
           (Some h, Some m, Some sec) \<Rightarrow> Some (h, m, sec, 0) | _ \<Rightarrow> None)
      else if n = 12 \<and> s ! 2 = CHR '':'' \<and> s ! 5 = CHR '':'' \<and> s ! 8 = CHR ''.'' then
        (case (field 0 2 s, field 3 2 s, field 6 2 s, field 9 3 s) of
           (Some h, Some m, Some sec, Some f) \<Rightarrow> Some (h, m, sec, f * 1000) | _ \<Rightarrow> None)
      else if n = 15 \<and> s ! 2 = CHR '':'' \<and> s ! 5 = CHR '':'' \<and> s ! 8 = CHR ''.'' then
        (case (field 0 2 s, field 3 2 s, field 6 2 s, field 9 6 s) of
           (Some h, Some m, Some sec, Some f) \<Rightarrow> Some (h, m, sec, f) | _ \<Rightarrow> None)
      else None)"

definition is_sign :: "char \<Rightarrow> bool" where
  "is_sign c = (c = CHR ''+'' \<or> c = CHR ''-'')"

definition parse_offset :: "string \<Rightarrow> int option" where
  "parse_offset s =
     (case s of
        [] \<Rightarrow> None
      | sg # tzstr \<Rightarrow>
          if length tzstr = 5 \<or> length tzstr = 8 \<or> length tzstr = 15 then
            (case parse_hh_mm_ss_ff tzstr of
               None \<Rightarrow> None
             | Some (h, m, sec, us) \<Rightarrow>
                 Some ((if sg = CHR ''-'' then - 1 else 1)
                        * (int (((h * 60 + m) * 60 + sec) * 1000000 + us))))
          else None)"

definition parse_isoformat_time ::
  "string \<Rightarrow> (nat \<times> nat \<times> nat \<times> nat \<times> int option) option" where
  "parse_isoformat_time tstr =
     (let timestr = takeWhile (\<lambda>c. \<not> is_sign c) tstr;
          tzpart = dropWhile (\<lambda>c. \<not> is_sign c) tstr
      in case parse_hh_mm_ss_ff timestr of
           None \<Rightarrow> None
         | Some (h, m, sec, us) \<Rightarrow>
             if tzpart = [] then Some (h, m, sec, us, None)
             else (case parse_offset tzpart of
                     None \<Rightarrow> None
                   | Some off \<Rightarrow> Some (h, m, sec, us, Some off)))"

definition fromisoformat :: "string \<Rightarrow> py_error + datetime" where
  "fromisoformat s =
     (case parse_isoformat_date (take 10 s) of
        None \<Rightarrow> Inl ValueError
      | Some (y, m, d) \<Rightarrow>
          if length s = 10 then
            new_datetime \<lparr>year = y, month = m, day = d, hour = 0, minute = 0, second = 0,
                           microsecond = 0, tzinfo = None\<rparr>
          else
            (case parse_isoformat_time (drop 11 s) of
               None \<Rightarrow> Inl ValueError
             | Some (h, mi, sec, us, tz) \<Rightarrow>
                 new_datetime \<lparr>year = y, month = m, day = d, hour = h, minute = mi,
                                second = sec, microsecond = us, tzinfo = tz\<rparr>))"

text \<open>
  \<^verbatim>\<open>parse_f1_datetime\<close> (lines 312 to 323). The handler catches \<^verbatim>\<open>ValueError\<close> and
  \<^verbatim>\<open>TypeError\<close>; any other exception would leave the function as \<open>Inl\<close>.
\<close>

definition parse_f1_datetime :: "string \<Rightarrow> string \<Rightarrow> py_error + datetime option" where
  "parse_f1_datetime date_str time_str =
     (if date_str = [] \<or> time_str = [] then Inr None
      else
        (let dt_str = date_str @ ''T'' @ time_str
         in case fromisoformat (str_replace (CHR ''Z'') ''+00:00'' dt_str) of
              Inr dt \<Rightarrow> Inr (Some dt)
            | Inl e \<Rightarrow> if e = ValueError \<or> e = TypeError then Inr None else Inl e))"

section \<open>The feed and the event formatter\<close>

text \<open>
  A race record of the feed, with the keys the program reads. A string field of the
  circuit that is missing reads as the empty string (\<^verbatim>\<open>circuit.get(k, "")\<close>), and a
  missing circuit as one with no field. \<open>raceName\<close> and \<open>round_num\<close> are \<open>None\<close> when
  the key is missing. The schedule maps a session type to its date and time; a session
  that is missing, or has an empty date or time, is skipped by the caller.
\<close>

record circuit_info =
  circuitName :: string
  country :: string
  city :: string

record session =
  date :: string
  time :: string

record race =
  raceName :: "string option"
  round_num :: "int option"
  circuit :: circuit_info
  schedule :: "string \<rightharpoonup> session"

definition newline :: string where
  "newline = [CHR 0x0A]"

definition session_labels :: "string \<rightharpoonup> string" where
  "session_labels =
     map_of [(''race'', ''Race''), (''qualy'', ''Qualifying''),
             (''sprintRace'', ''Sprint Race''), (''sprintQualy'', ''Sprint Qualifying'')]"

text \<open>\<^verbatim>\<open>session_labels.get(session_type, session_type.title())\<close>.\<close>

definition session_label :: "string \<Rightarrow> string" where
  "session_label session_type =
     (case session_labels session_type of Some l \<Rightarrow> l | None \<Rightarrow> title session_type)"

text \<open>
  Line 334: \<^verbatim>\<open>race_name.rsplit(" ", 1)[0] if race_name else "F1 Race"\<close>. The list that
  \<^verbatim>\<open>rsplit\<close> returns is never empty, so index 0 exists.
\<close>

definition strip_year :: "string \<Rightarrow> string" where
  "strip_year race_name = (if race_name = [] then ''F1 Race'' else rsplit1 (CHR '' '') race_name ! 0)"

text \<open>\<^verbatim>\<open>format_session_title\<close> (lines 326 to 349).\<close>

definition format_session_title :: "race \<Rightarrow> string \<Rightarrow> string" where
  "format_session_title r session_type =
     (let race_name = strip_year (case raceName r of None \<Rightarrow> ''F1 Race'' | Some n \<Rightarrow> n);
          circuit_name = circuitName (circuit r);
          ctry = country (circuit r);
          label = session_label session_type
      in if circuit_name \<noteq> [] then ''F1 '' @ race_name @ '' - '' @ label @ '' ('' @ circuit_name @ '')''
         else if ctry \<noteq> [] then ''F1 '' @ race_name @ '' - '' @ label @ '' ('' @ ctry @ '')''
         else ''F1 '' @ race_name @ '' - '' @ label)"

text \<open>
  \<^verbatim>\<open>format_session_description\<close> (lines 352 to 377). \<^verbatim>\<open>if round_num:\<close> is false for a
  missing round and for the integer 0.
\<close>

definition description_parts :: "race \<Rightarrow> string list" where
  "description_parts r =
     (case round_num r of
        None \<Rightarrow> []
      | Some n \<Rightarrow> if n = 0 then [] else [''Round '' @ str_int n])
     @ (if circuitName (circuit r) \<noteq> [] then [''Circuit: '' @ circuitName (circuit r)] else [])
     @ (if city (circuit r) \<noteq> [] \<and> country (circuit r) \<noteq> []
        then [''Location: '' @ city (circuit r) @ '', '' @ country (circuit r)]
        else if country (circuit r) \<noteq> [] then [''Location: '' @ country (circuit r)]
        else [])"

definition format_session_description :: "race \<Rightarrow> string \<Rightarrow> string" where
  "format_session_description r session_type =
     ''Formula 1 '' @ session_label session_type @ newline @ join newline (description_parts r)"

text \<open>Lines 414 to 416: \<^verbatim>\<open>f"{city}, {country}".strip(", ")\<close>.\<close>

definition race_location :: "race \<Rightarrow> string" where
  "race_location r = strip_chars '', '' (city (circuit r) @ '', '' @ country (circuit r))"

section \<open>The calendar service\<close>

text \<open>
  The remote calendar is the environment of the program: the events it holds, the
  identifier the next created event gets, and, for every remote call still to come,
  whether that call fails with \<^verbatim>\<open>HttpError\<close> (an exhausted list means no failure).
  An event is the body the program sends, under the identifier the service gave it.
  The program serialises both instants with \<^verbatim>\<open>isoformat()\<close>; the model keeps the
  datetime values.
\<close>

record event_body =
  summary :: string
  description :: string
  location :: string
  start_time :: datetime
  end_time :: datetime

record event =
  ev_id :: nat
  ev_body :: event_body

record calendar =
  events :: "event list"
  next_id :: nat
  faults :: "bool list"

definition remote_call :: "calendar \<Rightarrow> bool \<times> calendar" where
  "remote_call cal =
     (case faults cal of [] \<Rightarrow> (False, cal) | f # fs \<Rightarrow> (f, cal\<lparr>faults := fs\<rparr>))"

text \<open>
  \<^verbatim>\<open>events().list(timeMin, timeMax, singleEvents=True, orderBy="startTime")\<close>: the
  events that end after \<open>timeMin\<close> and start before \<open>timeMax\<close>, by start time.
\<close>

definition in_window :: "datetime \<Rightarrow> datetime \<Rightarrow> event \<Rightarrow> bool" where
  "in_window time_min time_max e =
     (instant time_min < instant (end_time (ev_body e)) \<and>
      instant (start_time (ev_body e)) < instant time_max)"

definition api_list ::
  "calendar \<Rightarrow> datetime \<Rightarrow> datetime \<Rightarrow> (py_error + event list) \<times> calendar" where
  "api_list cal time_min time_max =
     (case remote_call cal of
        (True, cal') \<Rightarrow> (Inl HttpError, cal')
      | (False, cal') \<Rightarrow>
          (Inr (sort_key (\<lambda>e. instant (start_time (ev_body e)))
                  (filter (in_window time_min time_max) (events cal'))), cal'))"

text \<open>\<^verbatim>\<open>events().insert(body)\<close>: a new event under a fresh identifier.\<close>

definition api_insert :: "calendar \<Rightarrow> event_body \<Rightarrow> (py_error + event) \<times> calendar" where
  "api_insert cal b =
     (case remote_call cal of
        (True, cal') \<Rightarrow> (Inl HttpError, cal')
      | (False, cal') \<Rightarrow>
          (let e = \<lparr>ev_id = next_id cal', ev_body = b\<rparr>
           in (Inr e, cal'\<lparr>events := events cal' @ [e], next_id := Suc (next_id cal')\<rparr>)))"

text \<open>
  \<^verbatim>\<open>events().update(eventId, body)\<close>: the whole body of that event is replaced; an
  identifier the calendar does not hold is a provider error.
\<close>

definition api_update ::
  "calendar \<Rightarrow> nat \<Rightarrow> event_body \<Rightarrow> (py_error + event) \<times> calendar" where
  "api_update cal eid b =
     (case remote_call cal of
        (True, cal') \<Rightarrow> (Inl HttpError, cal')
      | (False, cal') \<Rightarrow>
          if eid \<in> set (map ev_id (events cal'))
          then (Inr \<lparr>ev_id = eid, ev_body = b\<rparr>,
                cal'\<lparr>events := map (\<lambda>e. if ev_id e = eid then e\<lparr>ev_body := b\<rparr> else e)
                                     (events cal')\<rparr>)
          else (Inl HttpError, cal'))"

text \<open>
  \<^verbatim>\<open>find_existing_event\<close> (lines 225 to 252). Only \<^verbatim>\<open>HttpError\<close> is caught, and it is
  answered with \<^verbatim>\<open>None\<close>, the same value as "no such event".
\<close>

definition find_existing_event ::
  "calendar \<Rightarrow> string \<Rightarrow> datetime \<Rightarrow> (py_error + event option) \<times> calendar" where
  "find_existing_event cal event_title event_start =
     (case replace_hms event_start 0 0 0 of
        Inl e \<Rightarrow> (Inl e, cal)
      | Inr time_min \<Rightarrow>
          (case replace_hms event_start 23 59 59 of
             Inl e \<Rightarrow> (Inl e, cal)
           | Inr time_max \<Rightarrow>
               (case api_list cal time_min time_max of
                  (Inr evs, cal') \<Rightarrow> (Inr (find (\<lambda>e. summary (ev_body e) = event_title) evs), cal')
                | (Inl e, cal') \<Rightarrow>
                    if e = HttpError then (Inr None, cal') else (Inl e, cal'))))"

text \<open>
  \<^verbatim>\<open>add_or_update_event\<close> (lines 254 to 309). The end time is
  \<^verbatim>\<open>start_time.replace(hour=start_time.hour + 2)\<close>. The handler catches \<^verbatim>\<open>HttpError\<close>
  only. The result is the identifier of the written event, or \<^verbatim>\<open>None\<close>.
\<close>

definition add_or_update_event ::
  "calendar \<Rightarrow> string \<Rightarrow> datetime \<Rightarrow> string \<Rightarrow> string \<Rightarrow> (py_error + nat option) \<times> calendar" where
  "add_or_update_event cal ttl start descr loc =
     (case find_existing_event cal ttl start of
        (Inl e, cal1) \<Rightarrow> (Inl e, cal1)
      | (Inr existing_event, cal1) \<Rightarrow>
          (case replace_hour start (hour start + 2) of
             Inl e \<Rightarrow> (Inl e, cal1)
           | Inr end_t \<Rightarrow>
               (let b = \<lparr>summary = ttl, description = descr, location = loc,
                         start_time = start, end_time = end_t\<rparr>
                in case (case existing_event of
                           Some ex \<Rightarrow> api_update cal1 (ev_id ex) b
                         | None \<Rightarrow> api_insert cal1 b) of
                     (Inr written, cal2) \<Rightarrow> (Inr (Some (ev_id written)), cal2)
                   | (Inl e, cal2) \<Rightarrow>
                       if e = HttpError then (Inr None, cal2) else (Inl e, cal2))))"

section \<open>The reconciliation pass\<close>

record counts =
  added_count :: nat
  updated_count :: nat
  past_count :: nat
  invalid_date_count :: nat

definition zero_counts :: counts where
  "zero_counts = \<lparr>added_count = 0, updated_count = 0, past_count = 0, invalid_date_count = 0\<rparr>"

text \<open>
  Lines 438 to 456: the event is looked up once to know whether it existed, then
  \<^verbatim>\<open>add_or_update_event\<close> looks it up again and writes. A counter moves only when an
  identifier came back.
\<close>

definition reconcile_candidate ::
  "calendar \<Rightarrow> string \<Rightarrow> datetime \<Rightarrow> string \<Rightarrow> string \<Rightarrow> counts \<Rightarrow> (py_error + counts) \<times> calendar" where
  "reconcile_candidate cal ttl match_datetime descr loc c =
     (case find_existing_event cal ttl match_datetime of
        (Inl e, cal1) \<Rightarrow> (Inl e, cal1)
      | (Inr existing_event, cal1) \<Rightarrow>
          (let was_existing = (existing_event \<noteq> None)
           in case add_or_update_event cal1 ttl match_datetime descr loc of
                (Inl e, cal2) \<Rightarrow> (Inl e, cal2)
              | (Inr None, cal2) \<Rightarrow> (Inr c, cal2)
              | (Inr (Some eid), cal2) \<Rightarrow>
                  (if was_existing
                   then (Inr (c\<lparr>updated_count := updated_count c + 1\<rparr>), cal2)
                   else (Inr (c\<lparr>added_count := added_count c + 1\<rparr>), cal2))))"

text \<open>
  Lines 426 to 433: the temporal filter. A parse failure is invalid, an instant before
  the current time is past, anything else goes on to reconciliation. The comparison
  itself can raise.
\<close>

datatype temporal = Invalid | Past | Future datetime

definition temporal_filter :: "datetime \<Rightarrow> string \<Rightarrow> string \<Rightarrow> py_error + temporal" where
  "temporal_filter current_time session_date session_time =
     (case parse_f1_datetime session_date session_time of
        Inl e \<Rightarrow> Inl e
      | Inr None \<Rightarrow> Inr Invalid
      | Inr (Some match_datetime) \<Rightarrow>
          (case dt_less match_datetime current_time of
             Inl e \<Rightarrow> Inl e
           | Inr True \<Rightarrow> Inr Past
           | Inr False \<Rightarrow> Inr (Future match_datetime)))"

text \<open>
  The body of the inner loop (lines 418 to 456), for one session type of one race;
  \<open>loc\<close> is the location string the outer loop computed for the race.
\<close>

definition process_session ::
  "datetime \<Rightarrow> race \<Rightarrow> string \<Rightarrow> string \<Rightarrow> counts \<Rightarrow> calendar \<Rightarrow> (py_error + counts) \<times> calendar" where
  "process_session current_time r loc session_type c cal =
     (case schedule r session_type of
        None \<Rightarrow> (Inr c, cal)
      | Some s \<Rightarrow>
          if date s = [] \<or> time s = [] then (Inr c, cal)
          else
            (case temporal_filter current_time (date s) (time s) of
               Inl e \<Rightarrow> (Inl e, cal)
             | Inr Invalid \<Rightarrow> (Inr (c\<lparr>invalid_date_count := invalid_date_count c + 1\<rparr>), cal)
             | Inr Past \<Rightarrow> (Inr (c\<lparr>past_count := past_count c + 1\<rparr>), cal)
             | Inr (Future match_datetime) \<Rightarrow>
                 (let ttl = format_session_title r session_type;
                      descr = format_session_description r session_type
                  in reconcile_candidate cal ttl match_datetime descr loc c)))"

definition session_types :: "string list" where
  "session_types = [''race'', ''qualy'', ''sprintRace'', ''sprintQualy'']"

text \<open>The two loops. An exception ends the pass where it is raised.\<close>

fun sync_sessions ::
  "datetime \<Rightarrow> race \<Rightarrow> string \<Rightarrow> string list \<Rightarrow> counts \<Rightarrow> calendar \<Rightarrow> (py_error + counts) \<times> calendar" where
  "sync_sessions current_time r loc [] c cal = (Inr c, cal)"
| "sync_sessions current_time r loc (st # sts) c cal =
     (case process_session current_time r loc st c cal of
        (Inl e, cal') \<Rightarrow> (Inl e, cal')
      | (Inr c', cal') \<Rightarrow> sync_sessions current_time r loc sts c' cal')"

fun sync_races ::
  "datetime \<Rightarrow> race list \<Rightarrow> counts \<Rightarrow> calendar \<Rightarrow> (py_error + counts) \<times> calendar" where
  "sync_races current_time [] c cal = (Inr c, cal)"
| "sync_races current_time (r # rs) c cal =
     (case sync_sessions current_time r (race_location r) session_types c cal of
        (Inl e, cal') \<Rightarrow> (Inl e, cal')
      | (Inr c', cal') \<Rightarrow> sync_races current_time rs c' cal')"

text \<open>
  What the pass reports through the logger at its end: the warning of the early return
  (line 397), or the summary block (lines 458 to 465) and the closing remark (lines 467
  to 477). The per-event log lines do not steer the program and are left out.
\<close>

datatype report =
    NoRacesWarning
  | SyncSummary nat nat nat nat nat
  | AllPastWarning
  | SeasonEndedInfo
  | NothingChangedWarning

definition closing_remarks :: "counts \<Rightarrow> report list" where
  "closing_remarks c =
     (if added_count c = 0 \<and> updated_count c = 0 \<and> 0 < past_count c
      then [AllPastWarning, SeasonEndedInfo]
      else if added_count c = 0 \<and> updated_count c = 0 then [NothingChangedWarning]
      else [])"

text \<open>
  \<^verbatim>\<open>sync_f1_schedule\<close> (lines 380 to 477), from the point where the calendar is resolved
  and the feed has answered with \<open>races\<close>. \<open>clock\<close> is the reading of
  \<^verbatim>\<open>datetime.now(timezone.utc)\<close>, which is always aware with offset zero.
\<close>

definition summary_report :: "nat \<Rightarrow> counts \<Rightarrow> report list" where
  "summary_report n_races c =
     SyncSummary n_races (added_count c) (updated_count c) (past_count c) (invalid_date_count c)
       # closing_remarks c"

definition utc_now :: "datetime \<Rightarrow> datetime" where
  "utc_now clock = clock\<lparr>tzinfo := Some 0\<rparr>"

definition sync_f1_schedule ::
  "datetime \<Rightarrow> race list \<Rightarrow> calendar \<Rightarrow> (py_error + report list) \<times> calendar" where
  "sync_f1_schedule clock races cal =
     (if races = [] then (Inr [NoRacesWarning], cal)
      else
        (let current_time = utc_now clock
         in case sync_races current_time races zero_counts cal of
              (Inl e, cal') \<Rightarrow> (Inl e, cal')
            | (Inr c, cal') \<Rightarrow> (Inr (summary_report (length races) c), cal')))"

section \<open>Notions used in the statements\<close>

text \<open>
  A candidate is what the loop hands to the reconciler for a session that passed the
  filter: title, description, location and start. The action of a session is what the
  loop body does with it: nothing, one of the two skip counters, reconciliation, or an
  exception out of the filter. \<open>actions\<close> lists them in the order of the two loops.
\<close>

record candidate =
  cand_title :: string
  cand_description :: string
  cand_location :: string
  cand_start :: datetime

datatype action = Skip | CountInvalid | CountPast | Reconcile candidate | Raise py_error

definition session_action :: "datetime \<Rightarrow> race \<Rightarrow> string \<Rightarrow> action" where
  "session_action current_time r session_type =
     (case schedule r session_type of
        None \<Rightarrow> Skip
      | Some s \<Rightarrow>
          if date s = [] \<or> time s = [] then Skip
          else
            (case temporal_filter current_time (date s) (time s) of
               Inl e \<Rightarrow> Raise e
             | Inr Invalid \<Rightarrow> CountInvalid
             | Inr Past \<Rightarrow> CountPast
             | Inr (Future dt) \<Rightarrow>
                 Reconcile \<lparr>cand_title = format_session_title r session_type,
                            cand_description = format_session_description r session_type,
                            cand_location = race_location r,
                            cand_start = dt\<rparr>))"

definition actions :: "datetime \<Rightarrow> race list \<Rightarrow> action list" where
  "actions current_time races =
     concat (map (\<lambda>r. map (session_action current_time r) session_types) races)"

fun run_action :: "action \<Rightarrow> counts \<Rightarrow> calendar \<Rightarrow> (py_error + counts) \<times> calendar" where
  "run_action Skip c cal = (Inr c, cal)"
| "run_action CountInvalid c cal = (Inr (c\<lparr>invalid_date_count := invalid_date_count c + 1\<rparr>), cal)"
| "run_action CountPast c cal = (Inr (c\<lparr>past_count := past_count c + 1\<rparr>), cal)"
| "run_action (Reconcile k) c cal =
     reconcile_candidate cal (cand_title k) (cand_start k) (cand_description k) (cand_location k) c"
| "run_action (Raise e) c cal = (Inl e, cal)"

fun run_actions :: "action list \<Rightarrow> counts \<Rightarrow> calendar \<Rightarrow> (py_error + counts) \<times> calendar" where
  "run_actions [] c cal = (Inr c, cal)"
| "run_actions (a # as) c cal =
     (case run_action a c cal of
        (Inl e, cal') \<Rightarrow> (Inl e, cal')
      | (Inr c', cal') \<Rightarrow> run_actions as c' cal')"

fun eligible_of :: "action list \<Rightarrow> candidate list" where
  "eligible_of [] = []"
| "eligible_of (Reconcile k # as) = k # eligible_of as"
| "eligible_of (a # as) = eligible_of as"

fun is_raise :: "action \<Rightarrow> bool" where
  "is_raise (Raise e) = True"
| "is_raise a = False"

text \<open>The eligible candidates of a feed, and the sessions each skip counter counts.\<close>

definition eligible :: "datetime \<Rightarrow> race list \<Rightarrow> candidate list" where
  "eligible clock races = eligible_of (actions (utc_now clock) races)"

definition past_sessions :: "datetime \<Rightarrow> race list \<Rightarrow> nat" where
  "past_sessions clock races = length (filter (\<lambda>a. a = CountPast) (actions (utc_now clock) races))"

definition invalid_sessions :: "datetime \<Rightarrow> race list \<Rightarrow> nat" where
  "invalid_sessions clock races =
     length (filter (\<lambda>a. a = CountInvalid) (actions (utc_now clock) races))"

definition filter_passes :: "datetime \<Rightarrow> race list \<Rightarrow> bool" where
  "filter_passes clock races = list_all (\<lambda>a. \<not> is_raise a) (actions (utc_now clock) races)"

text \<open>The body the program writes for a candidate whose start hour is at most 21.\<close>

definition body_of :: "candidate \<Rightarrow> event_body" where
  "body_of k =
     \<lparr>summary = cand_title k, description = cand_description k, location = cand_location k,
      start_time = cand_start k, end_time = (cand_start k)\<lparr>hour := hour (cand_start k) + 2\<rparr>\<rparr>"

text \<open>
  An event matches a candidate when the candidate's lookup sees it: it carries the
  candidate's title and lies in the day window of the candidate's start.
\<close>

definition matches :: "candidate \<Rightarrow> event \<Rightarrow> bool" where
  "matches k e =
     (summary (ev_body e) = cand_title k \<and>
      in_window ((cand_start k)\<lparr>hour := 0, minute := 0, second := 0\<rparr>)
                ((cand_start k)\<lparr>hour := 23, minute := 59, second := 59\<rparr>) e)"

text \<open>What a lookup that does not fail returns: the first listed event with the title.\<close>

definition seen :: "event list \<Rightarrow> string \<Rightarrow> datetime \<Rightarrow> event option" where
  "seen es ttl start =
     find (\<lambda>e. summary (ev_body e) = ttl)
       (sort_key (\<lambda>e. instant (start_time (ev_body e)))
          (filter (in_window (start\<lparr>hour := 0, minute := 0, second := 0\<rparr>)
                             (start\<lparr>hour := 23, minute := 59, second := 59\<rparr>)) es))"

definition unseen :: "calendar \<Rightarrow> candidate list \<Rightarrow> bool" where
  "unseen cal ks = list_all (\<lambda>k. list_all (\<lambda>e. \<not> matches k e) (events cal)) ks"

definition clash :: "candidate \<Rightarrow> candidate \<Rightarrow> bool" where
  "clash k k' = (matches k \<lparr>ev_id = 0, ev_body = body_of k'\<rparr> \<or> matches k' \<lparr>ev_id = 0, ev_body = body_of k\<rparr>)"

fun distinct_keys :: "candidate list \<Rightarrow> bool" where
  "distinct_keys [] = True"
| "distinct_keys (k # ks) = (list_all (\<lambda>k'. \<not> clash k k') ks \<and> distinct_keys ks)"

definition wf_calendar :: "calendar \<Rightarrow> bool" where
  "wf_calendar cal =
     (distinct (map ev_id (events cal)) \<and> list_all (\<lambda>e. ev_id e < next_id cal) (events cal))"

text \<open>The events a run creates for a list of candidates, numbered from \<open>n\<close>.\<close>

fun created :: "nat \<Rightarrow> candidate list \<Rightarrow> event list" where
  "created n [] = []"
| "created n (k # ks) = \<lparr>ev_id = n, ev_body = body_of k\<rparr> # created (Suc n) ks"

text \<open>
  The dedup invariant of the calendar: no two events share a title and a calendar day
  (the UTC date of the start).
\<close>

definition utc_day :: "datetime \<Rightarrow> int" where
  "utc_day dt = instant dt div 86400000000"

definition dedup_invariant :: "event list \<Rightarrow> bool" where
  "dedup_invariant es =
     distinct (map (\<lambda>e. (summary (ev_body e), utc_day (start_time (ev_body e)))) es)"

text \<open>Canonical date and time strings, as the feed writes them.\<close>

definition two :: "nat \<Rightarrow> string" where
  "two n = [digit_char (n div 10), digit_char n]"

definition iso_date :: "nat \<Rightarrow> nat \<Rightarrow> nat \<Rightarrow> string" where
  "iso_date y m d = two (y div 100) @ two y @ ''-'' @ two m @ ''-'' @ two d"

definition iso_time :: "nat \<Rightarrow> nat \<Rightarrow> nat \<Rightarrow> string" where
  "iso_time h m s = two h @ '':'' @ two m @ '':'' @ two s"

text \<open>
  The character classes of the parser: what a date may hold, what a clock time may hold,
  and whether a time string carries a designator, that is a \<^verbatim>\<open>Z\<close>, which the program
  rewrites to an offset, or the sign of an offset. The letter \<^verbatim>\<open>W\<close> is counted among the
  date characters: the documented grammar has no use for it, later versions of the
  library read it as the week designator.
\<close>

definition has_designator :: "string \<Rightarrow> bool" where
  "has_designator t = list_ex (\<lambda>c. c = CHR ''Z'' \<or> is_sign c) t"

definition date_char :: "char \<Rightarrow> bool" where
  "date_char c = (is_digit c \<or> c = CHR ''-'' \<or> c = CHR ''W'')"

definition time_char :: "char \<Rightarrow> bool" where
  "time_char c = (is_digit c \<or> c = CHR '':'' \<or> c = CHR ''.'')"

text \<open>What the two skip counters add to a record of counts over a list of actions.\<close>

definition bump :: "action list \<Rightarrow> counts \<Rightarrow> counts" where
  "bump as c = c\<lparr>past_count := past_count c + length (filter (\<lambda>a. a = CountPast) as),
                  invalid_date_count := invalid_date_count c + length (filter (\<lambda>a. a = CountInvalid) as)\<rparr>"

section \<open>Example inputs\<close>

text \<open>
  Feed records in the shape the feed serves them, a clock reading at the start of
  2025, and calendars: an empty one, and one that holds the event of the Monaco race.
\<close>

definition albert_park :: circuit_info where
  "albert_park = \<lparr>circuitName = ''Albert Park'', country = ''Australia'', city = ''Melbourne''\<rparr>"

definition melbourne :: race where
  "melbourne = \<lparr>raceName = Some ''Australian Grand Prix 2025'', round_num = Some 1,
     circuit = albert_park,
     schedule = [''race'' \<mapsto> \<lparr>date = ''2025-03-16'', time = ''04:00:00Z''\<rparr>,
                 ''qualy'' \<mapsto> \<lparr>date = ''2025-03-15'', time = ''05:00:00Z''\<rparr>]\<rparr>"

definition melbourne_start :: datetime where
  "melbourne_start = \<lparr>year = 2025, month = 3, day = 16, hour = 4, minute = 0, second = 0,
                       microsecond = 0, tzinfo = Some 0\<rparr>"

definition melbourne_race :: candidate where
  "melbourne_race =
     \<lparr>cand_title = ''F1 Australian Grand Prix - Race (Albert Park)'',
      cand_description = ''Formula 1 Race'' @ newline @ ''Round 1'' @ newline
        @ ''Circuit: Albert Park'' @ newline @ ''Location: Melbourne, Australia'',
      cand_location = ''Melbourne, Australia'',
      cand_start = melbourne_start\<rparr>"

definition melbourne_qualy :: candidate where
  "melbourne_qualy =
     \<lparr>cand_title = ''F1 Australian Grand Prix - Qualifying (Albert Park)'',
      cand_description = ''Formula 1 Qualifying'' @ newline @ ''Round 1'' @ newline
        @ ''Circuit: Albert Park'' @ newline @ ''Location: Melbourne, Australia'',
      cand_location = ''Melbourne, Australia'',
      cand_start = melbourne_start\<lparr>day := 15, hour := 5\<rparr>\<rparr>"

definition new_year :: datetime where
  "new_year = \<lparr>year = 2025, month = 1, day = 1, hour = 0, minute = 0, second = 0,
                microsecond = 0, tzinfo = None\<rparr>"

definition lights_out :: datetime where
  "lights_out = \<lparr>year = 2025, month = 3, day = 16, hour = 4, minute = 0, second = 0,
                  microsecond = 0, tzinfo = None\<rparr>"

definition empty_calendar :: calendar where
  "empty_calendar = \<lparr>events = [], next_id = 1, faults = []\<rparr>"

definition no_circuit :: circuit_info where
  "no_circuit = \<lparr>circuitName = [], country = [], city = []\<rparr>"

definition monaco :: race where
  "monaco = \<lparr>raceName = Some ''Monaco'', round_num = None, circuit = no_circuit,
     schedule = [''race'' \<mapsto> \<lparr>date = ''2025-05-25'', time = ''13:00:00Z''\<rparr>]\<rparr>"

definition austin :: race where
  "austin = \<lparr>raceName = Some ''United States Grand Prix 2025'', round_num = Some 19,
     circuit = no_circuit,
     schedule = [''qualy'' \<mapsto> \<lparr>date = ''2025-10-18'', time = ''22:00:00Z''\<rparr>]\<rparr>"

definition austin_cand :: candidate where
  "austin_cand =
     \<lparr>cand_title = ''F1 United States Grand Prix - Qualifying'',
      cand_description = ''Formula 1 Qualifying'' @ newline @ ''Round 19'',
      cand_location = [],
      cand_start = \<lparr>year = 2025, month = 10, day = 18, hour = 22, minute = 0, second = 0,
                     microsecond = 0, tzinfo = Some 0\<rparr>\<rparr>"

definition monaco_start :: datetime where
  "monaco_start = \<lparr>year = 2025, month = 5, day = 25, hour = 13, minute = 0, second = 0,
                    microsecond = 0, tzinfo = Some 0\<rparr>"

definition monaco_event :: event_body where
  "monaco_event = \<lparr>summary = ''F1 Monaco - Race'', description = ''Formula 1 Race'' @ newline,
     location = [], start_time = monaco_start, end_time = monaco_start\<lparr>hour := 15\<rparr>\<rparr>"

definition monaco_cand :: candidate where
  "monaco_cand = \<lparr>cand_title = ''F1 Monaco - Race'', cand_description = ''Formula 1 Race'' @ newline,
                 cand_location = [], cand_start = monaco_start\<rparr>"

definition seeded_calendar :: calendar where
  "seeded_calendar = \<lparr>events = [\<lparr>ev_id = 1, ev_body = monaco_event\<rparr>], next_id = 2, faults = []\<rparr>"

definition flaky_calendar :: calendar where
  "flaky_calendar = \<lparr>events = [], next_id = 1, faults = [False, False, True]\<rparr>"

text \<open>A race whose time carries no designator.\<close>

definition imola_start :: datetime where
  "imola_start = \<lparr>year = 2025, month = 5, day = 18, hour = 13, minute = 0, second = 0,
                   microsecond = 0, tzinfo = None\<rparr>"

definition imola :: race where
  "imola = \<lparr>raceName = Some ''Emilia Romagna Grand Prix 2025'', round_num = Some 7,
     circuit = no_circuit,
     schedule = [''race'' \<mapsto> \<lparr>date = ''2025-05-18'', time = ''13:00:00''\<rparr>]\<rparr>"

section \<open>Parsing, validity and the calendar service\<close>

text \<open>
  A datetime that comes out of the parser satisfies the constructor's checks, and the
  parser raises nothing but \<^verbatim>\<open>ValueError\<close>.
\<close>

lemma new_datetime_Inr: "new_datetime dt = Inr dt' \<longleftrightarrow> (dt' = dt \<and> valid_datetime dt)"
  by (auto simp: new_datetime_def)

lemma new_datetime_Inl: "new_datetime dt = Inl e \<Longrightarrow> e = ValueError"
  by (auto simp: new_datetime_def split: if_splits)

lemma fromisoformat_valid: "fromisoformat s = Inr dt \<Longrightarrow> valid_datetime dt"
  by (auto simp: fromisoformat_def new_datetime_Inr split: option.splits prod.splits if_splits)

lemma fromisoformat_raises: "fromisoformat s = Inl e \<Longrightarrow> e = ValueError"
  by (auto simp: fromisoformat_def split: option.splits prod.splits if_splits dest: new_datetime_Inl)

lemma parse_f1_datetime_total: "\<exists>r. parse_f1_datetime d t = Inr r"
  by (auto simp: parse_f1_datetime_def Let_def split: sum.splits dest: fromisoformat_raises)

lemma parse_f1_datetime_valid: "parse_f1_datetime d t = Inr (Some dt) \<Longrightarrow> valid_datetime dt"
  by (auto simp: parse_f1_datetime_def Let_def split: sum.splits if_splits dest: fromisoformat_valid)

lemma temporal_filter_valid: "temporal_filter now d t = Inr (Future dt) \<Longrightarrow> valid_datetime dt"
  by (auto simp: temporal_filter_def split: sum.splits option.splits bool.splits dest: parse_f1_datetime_valid)

lemma valid_replace_hms:
  "valid_datetime s \<Longrightarrow> h < 24 \<Longrightarrow> m < 60 \<Longrightarrow> sec < 60 \<Longrightarrow>
   replace_hms s h m sec = Inr (s\<lparr>hour := h, minute := m, second := sec\<rparr>)"
  by (simp add: replace_hms_def new_datetime_def valid_datetime_def)

lemma valid_replace_hour:
  "valid_datetime s \<Longrightarrow> replace_hour s h = (if h < 24 then Inr (s\<lparr>hour := h\<rparr>) else Inl ValueError)"
  by (simp add: replace_hour_def new_datetime_def valid_datetime_def)

lemma instant_plus_two:
  "instant (s\<lparr>hour := hour s + 2\<rparr>) = instant s + 7200000000"
  by (simp add: instant_def)

lemma window_own:
  assumes "valid_datetime s" "hour s \<le> 21" "start_time b = s" "end_time b = s\<lparr>hour := hour s + 2\<rparr>"
  shows "in_window (s\<lparr>hour := 0, minute := 0, second := 0\<rparr>) (s\<lparr>hour := 23, minute := 59, second := 59\<rparr>)
           \<lparr>ev_id = i, ev_body = b\<rparr>"
proof -
  have "minute s < 60" "second s < 60" using assms(1) by (simp_all add: valid_datetime_def)
  then show ?thesis using assms(2-4) by (simp add: in_window_def instant_def)
qed

lemma remote_call_cases:
  "remote_call cal = (f, cal') \<Longrightarrow> events cal' = events cal \<and> next_id cal' = next_id cal"
  by (auto simp: remote_call_def split: list.splits)

lemma remote_call_quiet: "faults cal = [] \<Longrightarrow> remote_call cal = (False, cal)"
  by (simp add: remote_call_def)

lemma find_existing_event_quiet:
  "faults cal = [] \<Longrightarrow> valid_datetime s \<Longrightarrow>
   find_existing_event cal ttl s = (Inr (seen (events cal) ttl s), cal)"
  by (simp add: find_existing_event_def valid_replace_hms api_list_def remote_call_quiet seen_def)

lemma find_existing_event_total:
  "valid_datetime s \<Longrightarrow>
   \<exists>r cal'. find_existing_event cal ttl s = (Inr r, cal') \<and> events cal' = events cal
       \<and> next_id cal' = next_id cal"
  by (cases "remote_call cal")
     (auto simp: find_existing_event_def valid_replace_hms api_list_def
        split: bool.splits dest: remote_call_cases)

lemma api_insert_quiet:
  "faults cal = [] \<Longrightarrow>
   api_insert cal b =
     (Inr \<lparr>ev_id = next_id cal, ev_body = b\<rparr>,
      cal\<lparr>events := events cal @ [\<lparr>ev_id = next_id cal, ev_body = b\<rparr>],
          next_id := Suc (next_id cal)\<rparr>)"
  by (simp add: api_insert_def remote_call_quiet Let_def)

lemma api_update_quiet:
  "faults cal = [] \<Longrightarrow> ex \<in> set (events cal) \<Longrightarrow>
   api_update cal (ev_id ex) b =
     (Inr \<lparr>ev_id = ev_id ex, ev_body = b\<rparr>,
      cal\<lparr>events := map (\<lambda>e. if ev_id e = ev_id ex then e\<lparr>ev_body := b\<rparr> else e) (events cal)\<rparr>)"
  by (simp add: api_update_def remote_call_quiet)

lemma api_insert_total:
  "\<exists>r cal'. api_insert cal b = (r, cal') \<and> (r = Inl HttpError \<or> (\<exists>w. r = Inr w))"
  by (cases "remote_call cal") (auto simp: api_insert_def Let_def split: bool.splits)

lemma api_update_total:
  "\<exists>r cal'. api_update cal i b = (r, cal') \<and> (r = Inl HttpError \<or> (\<exists>w. r = Inr w))"
  by (cases "remote_call cal") (auto simp: api_update_def split: bool.splits)

lemma add_or_update_event_total:
  assumes "valid_datetime s" "hour s \<le> 21"
  shows "\<exists>r cal'. add_or_update_event cal ttl s d l = (Inr r, cal')"
proof -
  obtain ex cal1 where f: "find_existing_event cal ttl s = (Inr ex, cal1)"
    using find_existing_event_total[OF assms(1)] by blast
  have h: "replace_hour s (hour s + 2) = Inr (s\<lparr>hour := hour s + 2\<rparr>)"
    using assms by (simp add: valid_replace_hour)
  show ?thesis
  proof (cases ex)
    case None
    obtain r cal2 where "api_insert cal1 \<lparr>summary = ttl, description = d, location = l,
        start_time = s, end_time = s\<lparr>hour := hour s + 2\<rparr>\<rparr> = (r, cal2)"
      and "r = Inl HttpError \<or> (\<exists>w. r = Inr w)"
      using api_insert_total by blast
    then show ?thesis using f h None by (auto simp: add_or_update_event_def Let_def)
  next
    case (Some e)
    obtain r cal2 where "api_update cal1 (ev_id e) \<lparr>summary = ttl, description = d, location = l,
        start_time = s, end_time = s\<lparr>hour := hour s + 2\<rparr>\<rparr> = (r, cal2)"
      and "r = Inl HttpError \<or> (\<exists>w. r = Inr w)"
      using api_update_total by blast
    then show ?thesis using f h Some by (auto simp: add_or_update_event_def Let_def)
  qed
qed

lemma reconcile_candidate_total:
  assumes "valid_datetime s" "hour s \<le> 21"
  shows "\<exists>c' cal'. reconcile_candidate cal ttl s d l c = (Inr c', cal') \<and>
           past_count c' = past_count c \<and> invalid_date_count c' = invalid_date_count c \<and>
           added_count c' + updated_count c' \<le> added_count c + updated_count c + 1"
proof -
  obtain ex cal1 where f: "find_existing_event cal ttl s = (Inr ex, cal1)"
    using find_existing_event_total[OF assms(1)] by blast
  obtain r cal2 where a: "add_or_update_event cal1 ttl s d l = (Inr r, cal2)"
    using add_or_update_event_total[OF assms] by blast
  show ?thesis using f a by (cases r) (auto simp: reconcile_candidate_def Let_def)
qed

lemma run_actions_total:
  assumes "list_all (\<lambda>a. \<not> is_raise a) as"
    and "list_all (\<lambda>k. valid_datetime (cand_start k) \<and> hour (cand_start k) \<le> 21) (eligible_of as)"
  shows "\<exists>c' cal'. run_actions as c cal = (Inr c', cal') \<and>
           past_count c' = past_count c + length (filter (\<lambda>a. a = CountPast) as) \<and>
           invalid_date_count c' = invalid_date_count c + length (filter (\<lambda>a. a = CountInvalid) as) \<and>
           added_count c' + updated_count c' \<le> added_count c + updated_count c + length (eligible_of as)"
  using assms
proof (induction as arbitrary: c cal)
  case Nil
  then show ?case by simp
next
  case (Cons a as)
  show ?case
  proof (cases a)
    case (Reconcile k)
    with Cons.prems have v: "valid_datetime (cand_start k)" "hour (cand_start k) \<le> 21" by simp_all
    obtain c1 cal1 where r: "reconcile_candidate cal (cand_title k) (cand_start k) (cand_description k) (cand_location k) c = (Inr c1, cal1)"
      and k: "past_count c1 = past_count c" "invalid_date_count c1 = invalid_date_count c"
        "added_count c1 + updated_count c1 \<le> added_count c + updated_count c + 1"
      using reconcile_candidate_total[OF v] by blast
    from Cons.prems Reconcile have "list_all (\<lambda>a. \<not> is_raise a) as"
      "list_all (\<lambda>k. valid_datetime (cand_start k) \<and> hour (cand_start k) \<le> 21) (eligible_of as)" by simp_all
    from Cons.IH[OF this, of c1 cal1] obtain c' cal' where
      "run_actions as c1 cal1 = (Inr c', cal')"
      "past_count c' = past_count c1 + length (filter (\<lambda>a. a = CountPast) as)"
      "invalid_date_count c' = invalid_date_count c1 + length (filter (\<lambda>a. a = CountInvalid) as)"
      "added_count c' + updated_count c' \<le> added_count c1 + updated_count c1 + length (eligible_of as)"
      by blast
    then show ?thesis using r k Reconcile by simp
  next
    case Skip
    with Cons.prems Cons.IH[of c cal] show ?thesis by simp
  next
    case CountInvalid
    with Cons.prems Cons.IH[of "c\<lparr>invalid_date_count := invalid_date_count c + 1\<rparr>" cal] show ?thesis by simp
  next
    case CountPast
    with Cons.prems Cons.IH[of "c\<lparr>past_count := past_count c + 1\<rparr>" cal] show ?thesis by simp
  next
    case (Raise e)
    with Cons.prems show ?thesis by simp
  qed
qed

lemma process_session_action:
  "process_session now r (race_location r) st c cal = run_action (session_action now r st) c cal"
  by (auto simp: process_session_def session_action_def Let_def
      split: option.splits sum.splits temporal.splits)

lemma sync_sessions_actions:
  "sync_sessions now r (race_location r) sts c cal = run_actions (map (session_action now r) sts) c cal"
  by (induction sts arbitrary: c cal) (auto simp: process_session_action split: prod.splits sum.splits)

lemma run_actions_append:
  "run_actions (as @ bs) c cal =
     (case run_actions as c cal of (Inl e, cal') \<Rightarrow> (Inl e, cal') | (Inr c', cal') \<Rightarrow> run_actions bs c' cal')"
  by (induction as arbitrary: c cal) (auto split: prod.splits sum.splits)

lemma sync_races_actions:
  "sync_races now races c cal = run_actions (actions now races) c cal"
  by (induction races arbitrary: c cal)
     (auto simp: actions_def sync_sessions_actions run_actions_append split: prod.splits sum.splits)

section \<open>Lookups\<close>

lemma matches_body: "matches k e = matches k \<lparr>ev_id = 0, ev_body = ev_body e\<rparr>"
  by (simp add: matches_def in_window_def)

lemma find_unique:
  assumes "e \<in> set ys" "P e" "\<And>x. x \<in> set ys \<Longrightarrow> P x \<Longrightarrow> x = e"
  shows "find P ys = Some e"
  using assms
proof (induction ys)
  case Nil
  then show ?case by simp
next
  case (Cons y ys)
  show ?case
  proof (cases "P y")
    case True
    then have "y = e" using Cons.prems(3)[of y] by simp
    then show ?thesis using True by simp
  next
    case False
    then have "e \<in> set ys" using Cons.prems(1,2) by auto
    moreover have "x = e" if "x \<in> set ys" "P x" for x
      using that Cons.prems(3)[of x] by simp
    ultimately have "find P ys = Some e"
      using Cons.prems(2) by (intro Cons.IH)
    then show ?thesis using False by simp
  qed
qed

lemma find_in_set: "find P ys = Some e \<Longrightarrow> e \<in> set ys"
  by (induction ys) (auto split: if_splits)

lemma seen_in_set: "seen es ttl s = Some e \<Longrightarrow> e \<in> set es"
  unfolding seen_def by (drule find_in_set) simp

lemma seen_None:
  "list_all (\<lambda>e. \<not> matches k e) es \<Longrightarrow> seen es (cand_title k) (cand_start k) = None"
  unfolding seen_def find_None_iff by (auto simp: list_all_iff matches_def)

lemma seen_unique:
  assumes "e \<in> set es" "matches k e" "\<And>x. x \<in> set es \<Longrightarrow> matches k x \<Longrightarrow> x = e"
  shows "seen es (cand_title k) (cand_start k) = Some e"
  unfolding seen_def
proof (rule find_unique)
  show "e \<in> set (sort_key (\<lambda>e. instant (start_time (ev_body e)))
          (filter (in_window ((cand_start k)\<lparr>hour := 0, minute := 0, second := 0\<rparr>)
                             ((cand_start k)\<lparr>hour := 23, minute := 59, second := 59\<rparr>)) es))"
    using assms(1,2) by (simp add: matches_def)
  show "summary (ev_body e) = cand_title k" using assms(2) by (simp add: matches_def)
  fix x
  assume "x \<in> set (sort_key (\<lambda>e. instant (start_time (ev_body e)))
          (filter (in_window ((cand_start k)\<lparr>hour := 0, minute := 0, second := 0\<rparr>)
                             ((cand_start k)\<lparr>hour := 23, minute := 59, second := 59\<rparr>)) es))"
    and "summary (ev_body x) = cand_title k"
  then have "x \<in> set es" "matches k x" by (simp_all add: matches_def)
  then show "x = e" by (rule assms(3))
qed

lemma map_replace_same:
  assumes "distinct (map ev_id es)" "e \<in> set es"
  shows "map (\<lambda>x. if ev_id x = ev_id e then x\<lparr>ev_body := ev_body e\<rparr> else x) es = es"
proof -
  have "\<And>x. x \<in> set es \<Longrightarrow> ev_id x = ev_id e \<Longrightarrow> x = e"
    using assms by (meson distinct_map inj_onD)
  then have "\<And>x. x \<in> set es \<Longrightarrow> (if ev_id x = ev_id e then x\<lparr>ev_body := ev_body e\<rparr> else x) = x"
    by (metis event.update_convs(2) event.surjective event.select_convs(2) event.ext_inject)
  then show ?thesis by (simp add: map_idI)
qed

section \<open>One candidate, no remote failure\<close>

lemma add_or_update_event_quiet:
  assumes "faults cal = []" "valid_datetime (cand_start k)" "hour (cand_start k) \<le> 21"
  shows "add_or_update_event cal (cand_title k) (cand_start k) (cand_description k) (cand_location k) =
           (case (case seen (events cal) (cand_title k) (cand_start k) of
                    Some ex \<Rightarrow> api_update cal (ev_id ex) (body_of k)
                  | None \<Rightarrow> api_insert cal (body_of k)) of
              (Inr written, cal2) \<Rightarrow> (Inr (Some (ev_id written)), cal2)
            | (Inl e, cal2) \<Rightarrow> if e = HttpError then (Inr None, cal2) else (Inl e, cal2))"
proof -
  have h: "replace_hour (cand_start k) (hour (cand_start k) + 2)
             = Inr ((cand_start k)\<lparr>hour := hour (cand_start k) + 2\<rparr>)"
    using assms(2,3) by (simp add: valid_replace_hour)
  show ?thesis
    unfolding add_or_update_event_def find_existing_event_quiet[OF assms(1,2)] h body_of_def Let_def
      prod.case sum.case
    by (rule refl)
qed

lemma reconcile_insert:
  assumes "faults cal = []" "valid_datetime (cand_start k)" "hour (cand_start k) \<le> 21"
    and "seen (events cal) (cand_title k) (cand_start k) = None"
  shows "reconcile_candidate cal (cand_title k) (cand_start k) (cand_description k) (cand_location k) c =
           (Inr (c\<lparr>added_count := added_count c + 1\<rparr>),
            cal\<lparr>events := events cal @ [\<lparr>ev_id = next_id cal, ev_body = body_of k\<rparr>],
                next_id := Suc (next_id cal)\<rparr>)"
  unfolding reconcile_candidate_def find_existing_event_quiet[OF assms(1,2)] prod.case sum.case
    add_or_update_event_quiet[OF assms(1-3)] assms(4) api_insert_quiet[OF assms(1)] Let_def
    option.case
  by simp

lemma reconcile_update_same:
  assumes "faults cal = []" "valid_datetime (cand_start k)" "hour (cand_start k) \<le> 21"
    and "seen (events cal) (cand_title k) (cand_start k) = Some e"
    and "ev_body e = body_of k" "distinct (map ev_id (events cal))"
  shows "reconcile_candidate cal (cand_title k) (cand_start k) (cand_description k) (cand_location k) c =
           (Inr (c\<lparr>updated_count := updated_count c + 1\<rparr>), cal)"
proof -
  have m: "e \<in> set (events cal)" using assms(4) by (rule seen_in_set)
  have same: "cal\<lparr>events := map (\<lambda>x. if ev_id x = ev_id e then x\<lparr>ev_body := body_of k\<rparr> else x)
                (events cal)\<rparr> = cal"
    using map_replace_same[OF assms(6) m] unfolding assms(5) by simp
  show ?thesis
    unfolding reconcile_candidate_def find_existing_event_quiet[OF assms(1,2)] prod.case sum.case
      add_or_update_event_quiet[OF assms(1-3)] assms(4) option.case
      api_update_quiet[OF assms(1) m] Let_def same
    by simp
qed

section \<open>A pass from a calendar that holds no matching event, and the pass after it\<close>

lemma created_bodies:
  "x \<in> set (created n ks) \<Longrightarrow> \<exists>k'\<in>set ks. ev_body x = body_of k'"
  by (induction ks arbitrary: n) auto

lemma created_ids: "map ev_id (created n ks) = [n..<n + length ks]"
  by (induction ks arbitrary: n) (auto simp: upt_rec)

lemma unseen_Cons: "unseen cal (k # ks) = (list_all (\<lambda>e. \<not> matches k e) (events cal) \<and> unseen cal ks)"
  by (simp add: unseen_def)

lemma unseen_after_insert:
  assumes "unseen cal ks" "list_all (\<lambda>k'. \<not> clash k k') ks"
  shows "unseen (cal\<lparr>events := events cal @ [\<lparr>ev_id = i, ev_body = body_of k\<rparr>], next_id := n\<rparr>) ks"
proof -
  have "\<not> matches k' \<lparr>ev_id = i, ev_body = body_of k\<rparr>" if "k' \<in> set ks" for k'
  proof -
    have "\<not> clash k k'" using assms(2) that by (simp add: list_all_iff)
    then have "\<not> matches k' \<lparr>ev_id = 0, ev_body = body_of k\<rparr>" by (simp add: clash_def)
    then show ?thesis using matches_body[of k' "\<lparr>ev_id = i, ev_body = body_of k\<rparr>"] by simp
  qed
  then show ?thesis using assms(1) by (simp add: unseen_def list_all_iff)
qed

lemma run_first:
  assumes "faults cal = []"
    and "list_all (\<lambda>a. \<not> is_raise a) as"
    and "list_all (\<lambda>k. valid_datetime (cand_start k) \<and> hour (cand_start k) \<le> 21) (eligible_of as)"
    and "unseen cal (eligible_of as)"
    and "distinct_keys (eligible_of as)"
  shows "run_actions as c cal =
           (Inr (bump as (c\<lparr>added_count := added_count c + length (eligible_of as)\<rparr>)),
            cal\<lparr>events := events cal @ created (next_id cal) (eligible_of as),
                next_id := next_id cal + length (eligible_of as)\<rparr>)"
  using assms
proof (induction as arbitrary: c cal)
  case Nil
  then show ?case by (simp add: bump_def)
next
  case (Cons a as)
  show ?case
  proof (cases a)
    case (Reconcile k)
    let ?cal1 = "cal\<lparr>events := events cal @ [\<lparr>ev_id = next_id cal, ev_body = body_of k\<rparr>],
                next_id := Suc (next_id cal)\<rparr>"
    let ?c1 = "c\<lparr>added_count := added_count c + 1\<rparr>"
    from Cons.prems Reconcile have v: "valid_datetime (cand_start k)" "hour (cand_start k) \<le> 21"
      and rest: "list_all (\<lambda>a. \<not> is_raise a) as"
        "list_all (\<lambda>k. valid_datetime (cand_start k) \<and> hour (cand_start k) \<le> 21) (eligible_of as)"
        "distinct_keys (eligible_of as)"
      and nc: "list_all (\<lambda>k'. \<not> clash k k') (eligible_of as)"
      and un: "list_all (\<lambda>e. \<not> matches k e) (events cal)" "unseen cal (eligible_of as)"
      by (simp_all add: unseen_Cons)
    have step: "run_action a c cal = (Inr ?c1, ?cal1)"
      using reconcile_insert[OF Cons.prems(1) v seen_None[OF un(1)]] Reconcile by simp
    have f1: "faults ?cal1 = []" using Cons.prems(1) by simp
    have u1: "unseen ?cal1 (eligible_of as)" by (rule unseen_after_insert[OF un(2) nc])
    have "run_actions as ?c1 ?cal1 =
           (Inr (bump as (?c1\<lparr>added_count := added_count ?c1 + length (eligible_of as)\<rparr>)),
            ?cal1\<lparr>events := events ?cal1 @ created (next_id ?cal1) (eligible_of as),
                next_id := next_id ?cal1 + length (eligible_of as)\<rparr>)"
      by (rule Cons.IH[OF f1 rest(1,2) u1 rest(3)])
    then show ?thesis using step Reconcile by (simp add: bump_def)
  next
    case Skip
    with Cons.prems Cons.IH[of cal c] show ?thesis by (simp add: bump_def)
  next
    case CountInvalid
    with Cons.prems Cons.IH[of cal "c\<lparr>invalid_date_count := invalid_date_count c + 1\<rparr>"]
    show ?thesis by (simp add: bump_def)
  next
    case CountPast
    with Cons.prems Cons.IH[of cal "c\<lparr>past_count := past_count c + 1\<rparr>"]
    show ?thesis by (simp add: bump_def)
  next
    case (Raise e)
    with Cons.prems show ?thesis by simp
  qed
qed

lemma run_second:
  assumes "faults cal = []" "distinct (map ev_id (events cal))"
    and "list_all (\<lambda>a. \<not> is_raise a) as"
    and "list_all (\<lambda>k. valid_datetime (cand_start k) \<and> hour (cand_start k) \<le> 21) (eligible_of as)"
    and "\<And>k. k \<in> set (eligible_of as) \<Longrightarrow>
           \<exists>e. seen (events cal) (cand_title k) (cand_start k) = Some e \<and> ev_body e = body_of k"
  shows "run_actions as c cal =
           (Inr (bump as (c\<lparr>updated_count := updated_count c + length (eligible_of as)\<rparr>)), cal)"
  using assms(3-5)
proof (induction as arbitrary: c)
  case Nil
  then show ?case by (simp add: bump_def)
next
  case (Cons a as)
  show ?case
  proof (cases a)
    case (Reconcile k)
    let ?c1 = "c\<lparr>updated_count := updated_count c + 1\<rparr>"
    from Cons.prems Reconcile have v: "valid_datetime (cand_start k)" "hour (cand_start k) \<le> 21"
      and rest: "list_all (\<lambda>a. \<not> is_raise a) as"
        "list_all (\<lambda>k. valid_datetime (cand_start k) \<and> hour (cand_start k) \<le> 21) (eligible_of as)"
      by simp_all
    obtain e where e: "seen (events cal) (cand_title k) (cand_start k) = Some e" "ev_body e = body_of k"
      using Cons.prems(3)[of k] Reconcile by auto
    have step: "run_action a c cal = (Inr ?c1, cal)"
      using reconcile_update_same[OF assms(1) v e assms(2)] Reconcile by simp
    have "run_actions as ?c1 cal =
            (Inr (bump as (?c1\<lparr>updated_count := updated_count ?c1 + length (eligible_of as)\<rparr>)), cal)"
      by (rule Cons.IH[OF rest]) (use Cons.prems(3) Reconcile in auto)
    then show ?thesis using step Reconcile by (simp add: bump_def)
  next
    case Skip
    with Cons.prems Cons.IH[of c] show ?thesis by (simp add: bump_def)
  next
    case CountInvalid
    with Cons.prems Cons.IH[of "c\<lparr>invalid_date_count := invalid_date_count c + 1\<rparr>"]
    show ?thesis by (simp add: bump_def)
  next
    case CountPast
    with Cons.prems Cons.IH[of "c\<lparr>past_count := past_count c + 1\<rparr>"]
    show ?thesis by (simp add: bump_def)
  next
    case (Raise e)
    with Cons.prems show ?thesis by simp
  qed
qed

lemma own_match:
  assumes "valid_datetime (cand_start k)" "hour (cand_start k) \<le> 21"
  shows "matches k \<lparr>ev_id = i, ev_body = body_of k\<rparr>"
  using window_own[OF assms, of "body_of k" i] by (simp add: matches_def body_of_def)

lemma created_own:
  assumes "distinct_keys ks"
    and "list_all (\<lambda>k. valid_datetime (cand_start k) \<and> hour (cand_start k) \<le> 21) ks"
    and "k \<in> set ks"
  shows "\<exists>e\<in>set (created n ks). ev_body e = body_of k \<and> matches k e \<and>
           (\<forall>x\<in>set (created n ks). matches k x \<longrightarrow> x = e)"
  using assms
proof (induction ks arbitrary: n)
  case Nil
  then show ?case by simp
next
  case (Cons k0 ks)
  let ?e0 = "\<lparr>ev_id = n, ev_body = body_of k0\<rparr>"
  have nc: "\<not> clash k0 k'" if "k' \<in> set ks" for k'
    using Cons.prems(1) that by (simp add: list_all_iff)
  show ?case
  proof (cases "k = k0")
    case True
    have m: "matches k0 ?e0" using Cons.prems(2) by (simp add: own_match)
    have "\<not> matches k0 x" if xin: "x \<in> set (created (Suc n) ks)" for x
    proof -
      obtain k' where k': "k' \<in> set ks" "ev_body x = body_of k'"
        using created_bodies[OF xin] by blast
      then have "\<not> matches k0 \<lparr>ev_id = 0, ev_body = body_of k'\<rparr>"
        using nc[of k'] by (simp add: clash_def)
      then show ?thesis using matches_body[of k0 x] k'(2) by simp
    qed
    then have uniq: "x = ?e0" if "x \<in> set (created n (k0 # ks))" "matches k0 x" for x
      using that by fastforce
    show ?thesis
    proof (intro bexI[of _ ?e0] conjI ballI impI)
      show "ev_body ?e0 = body_of k" using True by simp
      show "matches k ?e0" using m True by simp
      show "?e0 \<in> set (created n (k0 # ks))" by simp
      fix x assume "x \<in> set (created n (k0 # ks))" "matches k x"
      then show "x = ?e0" unfolding True by (rule uniq)
    qed
  next
    case False
    then have kin: "k \<in> set ks" using Cons.prems(3) by simp
    have "\<not> matches k \<lparr>ev_id = 0, ev_body = body_of k0\<rparr>"
      using nc[OF kin] by (simp add: clash_def)
    then have h: "\<not> matches k ?e0" using matches_body[of k ?e0] by simp
    from Cons.prems have "distinct_keys ks"
      "list_all (\<lambda>k. valid_datetime (cand_start k) \<and> hour (cand_start k) \<le> 21) ks" by simp_all
    from Cons.IH[OF this kin, of "Suc n"] obtain e where
      e: "e \<in> set (created (Suc n) ks)" "ev_body e = body_of k" "matches k e"
      and u: "\<And>x. x \<in> set (created (Suc n) ks) \<Longrightarrow> matches k x \<Longrightarrow> x = e" by blast
    have "x = e" if "x \<in> set (created n (k0 # ks))" "matches k x" for x
    proof -
      from that(1) have "x = ?e0 \<or> x \<in> set (created (Suc n) ks)" by simp
      then show ?thesis using h that(2) u[of x] by blast
    qed
    moreover have "e \<in> set (created n (k0 # ks))" using e(1) by simp
    ultimately show ?thesis using e(2,3) by blast
  qed
qed

lemma seen_after_first:
  assumes "unseen cal ks" "distinct_keys ks"
    and "list_all (\<lambda>k. valid_datetime (cand_start k) \<and> hour (cand_start k) \<le> 21) ks"
    and "k \<in> set ks"
  shows "\<exists>e. seen (events cal @ created n ks) (cand_title k) (cand_start k) = Some e \<and>
             ev_body e = body_of k"
proof -
  obtain e where e: "e \<in> set (created n ks)" "ev_body e = body_of k" "matches k e"
    and u: "\<forall>x\<in>set (created n ks). matches k x \<longrightarrow> x = e"
    using created_own[OF assms(2-4), of n] by blast
  have old: "\<not> matches k x" if "x \<in> set (events cal)" for x
    using assms(1,4) that by (simp add: unseen_def list_all_iff)
  have "seen (events cal @ created n ks) (cand_title k) (cand_start k) = Some e"
  proof (rule seen_unique)
    show "e \<in> set (events cal @ created n ks)" using e(1) by simp
    show "matches k e" by fact
    fix x assume "x \<in> set (events cal @ created n ks)" "matches k x"
    then show "x = e" using old[of x] u by (cases "x \<in> set (events cal)") simp_all
  qed
  then show ?thesis using e(2) by blast
qed

lemma wf_after_first:
  assumes "wf_calendar cal"
  shows "distinct (map ev_id (events cal @ created (next_id cal) ks))"
  using assms by (auto simp: wf_calendar_def created_ids list_all_iff)

lemma session_action_valid:
  "session_action now r st = Reconcile k \<Longrightarrow> valid_datetime (cand_start k)"
  by (auto simp: session_action_def split: option.splits if_splits sum.splits temporal.splits
      dest: temporal_filter_valid)

lemma eligible_of_set: "k \<in> set (eligible_of as) \<longleftrightarrow> Reconcile k \<in> set as"
  by (induction as rule: eligible_of.induct) auto

lemma eligible_valid: "k \<in> set (eligible clock races) \<Longrightarrow> valid_datetime (cand_start k)"
  by (auto simp: eligible_def eligible_of_set actions_def dest: session_action_valid[OF sym])

section \<open>Evaluation of the examples\<close>

lemmas parse_defs = parse_f1_datetime_def fromisoformat_def str_replace_def parse_isoformat_date_def
  field_def digits_def is_digit_def digit_val_def parse_isoformat_time_def parse_hh_mm_ss_ff_def
  is_sign_def parse_offset_def new_datetime_def valid_datetime_def days_in_month_def is_leap_def

lemmas instant_defs = instant_def ymd2ord_def days_before_year_def days_before_month_def
  days_in_month_def is_leap_def upt_rec

lemmas format_defs = format_session_title_def format_session_description_def description_parts_def
  strip_year_def rsplit1_def session_label_def session_labels_def race_location_def strip_chars_def
  newline_def str_int_def digit_char_def

lemmas filter_defs = temporal_filter_def dt_less_def utc_now_def

lemma melbourne_actions:
  "actions (utc_now new_year) [melbourne] =
     [Reconcile melbourne_race, Reconcile melbourne_qualy, Skip, Skip]"
  by (simp add: actions_def session_types_def session_action_def melbourne_def albert_park_def
      new_year_def melbourne_race_def melbourne_qualy_def melbourne_start_def
      parse_defs instant_defs format_defs filter_defs)

section \<open>Canonical dates and times through the parser\<close>

text \<open>
  The strings \<^verbatim>\<open>YYYY-MM-DD\<close> and \<^verbatim>\<open>HH:MM:SS\<close>, written with \<^const>\<open>iso_date\<close> and
  \<^const>\<open>iso_time\<close> from the fields of a valid datetime, parse back to those fields: without a
  designator to a naive datetime, with a trailing \<^verbatim>\<open>Z\<close> to offset zero.
\<close>

lemma below_ten:
  "(k::nat) < 10 \<Longrightarrow>
     k = 0 \<or> k = 1 \<or> k = 2 \<or> k = 3 \<or> k = 4 \<or> k = 5 \<or> k = 6 \<or> k = 7 \<or> k = 8 \<or> k = 9"
  by arith

lemma digit_char_cases:
  "digit_char n \<in> set ''0123456789''"
  using below_ten[of "n mod 10"] unfolding digit_char_def by auto

lemma is_digit_digit_char [simp]: "is_digit (digit_char n)"
  using digit_char_cases[of n] by (auto simp: is_digit_def)

lemma digit_char_not_Z [simp]: "digit_char n \<noteq> CHR ''Z''"
  using digit_char_cases[of n] by auto

lemma digit_char_not_sign [simp]: "\<not> is_sign (digit_char n)"
  using digit_char_cases[of n] by (auto simp: is_sign_def)

lemma digit_val_digit_char [simp]: "digit_val (digit_char n) = n mod 10"
  using below_ten[of "n mod 10"] unfolding digit_char_def digit_val_def by auto

lemma digits_two: "n < 100 \<Longrightarrow> digits (two n) = Some n"
  by (simp add: digits_def two_def)

lemma four_digits_value:
  assumes "(n::nat) < 10000"
  shows "10 * (10 * (10 * (n div 100 div 10 mod 10) + n div 100 mod 10) + n div 10 mod 10) + n mod 10 = n"
proof -
  define A B C p q r where "A = n div 100 div 10" and "B = n div 100" and "C = n div 10"
    and "p = n div 100 mod 10" and "q = n div 10 mod 10" and "r = n mod 10"
  have a: "n div 100 div 10 mod 10 = A" using assms unfolding A_def by simp
  have b: "B = 10 * A + p" unfolding A_def B_def p_def by simp
  have "n div 10 div 10 = n div 100" by (simp add: div_mult2_eq)
  then have c: "C = 10 * B + q" unfolding B_def C_def q_def by (metis mult_div_mod_eq)
  have e: "n = 10 * C + r" unfolding C_def r_def by simp
  have "10 * (10 * (10 * A + p) + q) + r = n" unfolding e c b ..
  then show ?thesis unfolding a unfolding p_def q_def r_def .
qed

lemma digits_four: "n < 10000 \<Longrightarrow> digits (two (n div 100) @ two n) = Some n"
  using four_digits_value[of n] by (simp add: digits_def two_def)

lemma digit_char_not_Z' [simp]: "CHR ''Z'' \<noteq> digit_char n"
  using digit_char_not_Z[of n] by (rule not_sym)

lemma colon_not_sign [simp]: "\<not> is_sign (CHR '':'')"
  by (simp add: is_sign_def)

lemma str_replace_append:
  "str_replace c new (a @ b) = str_replace c new a @ str_replace c new b"
  by (simp add: str_replace_def)

lemma str_replace_absent: "c \<notin> set s \<Longrightarrow> str_replace c new s = s"
  by (induction s) (auto simp: str_replace_def)

lemma str_replace_all: "c \<notin> set new \<Longrightarrow> c \<notin> set (str_replace c new s)"
  by (induction s) (auto simp: str_replace_def)

lemma iso_date_no_Z: "CHR ''Z'' \<notin> set (iso_date y m d)"
  by (simp add: iso_date_def two_def)

lemma iso_time_no_Z: "CHR ''Z'' \<notin> set (iso_time h mi s)"
  by (simp add: iso_time_def two_def)

lemma length_iso_date: "length (iso_date y m d) = 10"
  by (simp add: iso_date_def two_def)

lemma parse_iso_date:
  assumes "y < 10000" "m < 100" "d < 100"
  shows "parse_isoformat_date (iso_date y m d) = Some (y, m, d)"
proof -
  have "field 0 4 (iso_date y m d) = Some y"
    using digits_four[OF assms(1)] by (simp add: field_def iso_date_def two_def)
  moreover have "field 5 2 (iso_date y m d) = Some m"
    using digits_two[OF assms(2)] by (simp add: field_def iso_date_def two_def)
  moreover have "field 8 2 (iso_date y m d) = Some d"
    using digits_two[OF assms(3)] by (simp add: field_def iso_date_def two_def)
  moreover have "iso_date y m d ! 4 = CHR ''-''" "iso_date y m d ! 7 = CHR ''-''"
    by (simp_all add: iso_date_def two_def)
  ultimately show ?thesis by (simp add: parse_isoformat_date_def length_iso_date)
qed

lemma parse_iso_time:
  assumes "h < 100" "mi < 100" "s < 100"
  shows "parse_hh_mm_ss_ff (iso_time h mi s) = Some (h, mi, s, 0)"
proof -
  have "field 0 2 (iso_time h mi s) = Some h"
    using digits_two[OF assms(1)] by (simp add: field_def iso_time_def two_def)
  moreover have "field 3 2 (iso_time h mi s) = Some mi"
    using digits_two[OF assms(2)] by (simp add: field_def iso_time_def two_def)
  moreover have "field 6 2 (iso_time h mi s) = Some s"
    using digits_two[OF assms(3)] by (simp add: field_def iso_time_def two_def)
  moreover have "iso_time h mi s ! 2 = CHR '':''" "iso_time h mi s ! 5 = CHR '':''"
    "length (iso_time h mi s) = 8"
    by (simp_all add: iso_time_def two_def)
  ultimately show ?thesis by (simp add: parse_hh_mm_ss_ff_def)
qed

lemma iso_time_no_sign: "list_all (\<lambda>c. \<not> is_sign c) (iso_time h mi s)"
  by (simp add: iso_time_def two_def)

lemma parse_iso_time_naive:
  assumes "h < 100" "mi < 100" "s < 100"
  shows "parse_isoformat_time (iso_time h mi s) = Some (h, mi, s, 0, None)"
proof -
  have tw: "takeWhile (\<lambda>c. \<not> is_sign c) (iso_time h mi s) = iso_time h mi s"
    and dw: "dropWhile (\<lambda>c. \<not> is_sign c) (iso_time h mi s) = []"
    using iso_time_no_sign[of h mi s] by (simp_all add: list_all_iff)
  show ?thesis unfolding parse_isoformat_time_def Let_def tw dw parse_iso_time[OF assms] by simp
qed

lemma parse_iso_time_utc:
  assumes "h < 100" "mi < 100" "s < 100"
  shows "parse_isoformat_time (iso_time h mi s @ ''+00:00'') = Some (h, mi, s, 0, Some 0)"
proof -
  have tw: "takeWhile (\<lambda>c. \<not> is_sign c) (iso_time h mi s @ ''+00:00'') = iso_time h mi s"
    and dw: "dropWhile (\<lambda>c. \<not> is_sign c) (iso_time h mi s @ ''+00:00'') = ''+00:00''"
    using iso_time_no_sign[of h mi s]
    by (simp_all add: list_all_iff takeWhile_append2 dropWhile_append2 is_sign_def)
  have po: "parse_offset ''+00:00'' = Some 0"
    by (simp add: parse_offset_def parse_hh_mm_ss_ff_def field_def digits_def is_digit_def digit_val_def)
  show ?thesis unfolding parse_isoformat_time_def Let_def tw dw parse_iso_time[OF assms] po by simp
qed

lemma parse_canonical:
  assumes "1 \<le> y" "y \<le> 9999" "1 \<le> m" "m \<le> 12" "1 \<le> d" "d \<le> days_in_month y m"
    and "h < 24" "mi < 60" "s < 60"
  shows "parse_f1_datetime (iso_date y m d) (iso_time h mi s) =
           Inr (Some \<lparr>year = y, month = m, day = d, hour = h, minute = mi, second = s,
                       microsecond = 0, tzinfo = None\<rparr>)"
    and "parse_f1_datetime (iso_date y m d) (iso_time h mi s @ ''Z'') =
           Inr (Some \<lparr>year = y, month = m, day = d, hour = h, minute = mi, second = s,
                       microsecond = 0, tzinfo = Some 0\<rparr>)"
proof -
  have dl: "d < 100" using assms(6) by (simp add: days_in_month_def split: if_splits)
  have pd: "parse_isoformat_date (iso_date y m d) = Some (y, m, d)"
    using assms(2,4) dl by (intro parse_iso_date) simp_all
  have ne: "iso_date y m d \<noteq> []" "iso_time h mi s \<noteq> []" "iso_time h mi s @ ''Z'' \<noteq> []"
    by (simp_all add: iso_date_def iso_time_def two_def)
  have r1: "str_replace (CHR ''Z'') ''+00:00'' (iso_date y m d @ CHR ''T'' # iso_time h mi s)
              = iso_date y m d @ CHR ''T'' # iso_time h mi s"
    by (rule str_replace_absent) (simp add: iso_date_no_Z iso_time_no_Z)
  have z: "str_replace (CHR ''Z'') ''+00:00'' ''Z'' = ''+00:00''" by (simp add: str_replace_def)
  have "str_replace (CHR ''Z'') ''+00:00'' ((iso_date y m d @ CHR ''T'' # iso_time h mi s) @ ''Z'')
              = (iso_date y m d @ CHR ''T'' # iso_time h mi s) @ ''+00:00''"
    unfolding str_replace_append[of _ _ "iso_date y m d @ CHR ''T'' # iso_time h mi s" "''Z''"] r1 z ..
  then have r2: "str_replace (CHR ''Z'') ''+00:00'' (iso_date y m d @ CHR ''T'' # iso_time h mi s @ ''Z'')
              = iso_date y m d @ CHR ''T'' # iso_time h mi s @ ''+00:00''"
    by simp
  have t1: "take 10 (iso_date y m d @ rest) = iso_date y m d"
    "drop 11 (iso_date y m d @ CHR ''T'' # rest) = rest"
    "length (iso_date y m d @ CHR ''T'' # rest) \<noteq> 10" for rest
    by (simp_all add: length_iso_date)
  have pt: "parse_isoformat_time (iso_time h mi s) = Some (h, mi, s, 0, None)"
    "parse_isoformat_time (iso_time h mi s @ ''+00:00'') = Some (h, mi, s, 0, Some 0)"
    using assms(7-9) by (simp_all add: parse_iso_time_naive parse_iso_time_utc)
  show "parse_f1_datetime (iso_date y m d) (iso_time h mi s) =
           Inr (Some \<lparr>year = y, month = m, day = d, hour = h, minute = mi, second = s,
                       microsecond = 0, tzinfo = None\<rparr>)"
    using assms ne
    by (simp add: parse_f1_datetime_def Let_def r1 fromisoformat_def length_iso_date pd pt
        new_datetime_def valid_datetime_def)
  show "parse_f1_datetime (iso_date y m d) (iso_time h mi s @ ''Z'') =
           Inr (Some \<lparr>year = y, month = m, day = d, hour = h, minute = mi, second = s,
                       microsecond = 0, tzinfo = Some 0\<rparr>)"
    using assms ne
    by (simp add: parse_f1_datetime_def Let_def r2 fromisoformat_def length_iso_date pd pt
        new_datetime_def valid_datetime_def)
qed

section \<open>Times without an offset\<close>

lemma no_offset_naive:
  assumes "fromisoformat (d @ ''T'' @ t) = Inr dt" "length d = 10"
    and "list_all (\<lambda>c. \<not> is_sign c) t"
  shows "tzinfo dt = None"
proof -
  have dw: "dropWhile (\<lambda>c. \<not> is_sign c) t = []" using assms(3) by (simp add: list_all_iff)
  have dr: "drop 11 (d @ ''T'' @ t) = t" using assms(2) by simp
  have ln: "length (d @ ''T'' @ t) \<noteq> 10" using assms(2) by simp
  show ?thesis
    using assms(1) unfolding fromisoformat_def dr
    by (auto simp: ln parse_isoformat_time_def Let_def dw new_datetime_Inr
        split: option.splits prod.splits if_splits)
qed

lemma parse_no_designator_naive:
  assumes "parse_f1_datetime d t = Inr (Some dt)" "length d = 10" "CHR ''Z'' \<notin> set d"
    and "list_all (\<lambda>c. c \<noteq> CHR ''Z'' \<and> \<not> is_sign c) t"
  shows "tzinfo dt = None"
proof -
  have "CHR ''Z'' \<notin> set (d @ ''T'' @ t)" using assms(3,4) by (auto simp: list_all_iff)
  then have "str_replace (CHR ''Z'') ''+00:00'' (d @ ''T'' @ t) = d @ ''T'' @ t"
    by (rule str_replace_absent)
  then have "fromisoformat (d @ ''T'' @ t) = Inr dt"
    using assms(1) by (auto simp: parse_f1_datetime_def Let_def split: if_splits sum.splits)
  moreover have "list_all (\<lambda>c. \<not> is_sign c) t" using assms(4) by (simp add: list_all_iff)
  ultimately show ?thesis by (rule no_offset_naive[OF _ assms(2)])
qed

section \<open>The examples, and candidates under failed lookups or a late start\<close>

lemmas service_defs = reconcile_candidate_def find_existing_event_def add_or_update_event_def
  api_list_def api_insert_def api_update_def remote_call_def in_window_def replace_hms_def
  replace_hour_def new_datetime_def valid_datetime_def Let_def days_in_month_def is_leap_def

lemmas sync_defs = sync_f1_schedule_def sync_races_actions summary_report_def closing_remarks_def
  zero_counts_def

lemma monaco_actions:
  "actions (utc_now new_year) [monaco] =
     [Reconcile monaco_cand, Skip, Skip, Skip]"
  by (simp add: actions_def session_types_def session_action_def monaco_def no_circuit_def
      new_year_def monaco_start_def monaco_cand_def parse_defs instant_defs format_defs filter_defs)

lemma austin_actions:
  "actions (utc_now new_year) [austin] =
     [Skip, Reconcile \<lparr>cand_title = ''F1 United States Grand Prix - Qualifying'',
                 cand_description = ''Formula 1 Qualifying'' @ newline @ ''Round 19'',
                 cand_location = [],
                 cand_start = \<lparr>year = 2025, month = 10, day = 18, hour = 22, minute = 0, second = 0,
                    microsecond = 0, tzinfo = Some 0\<rparr>\<rparr>, Skip, Skip]"
  by (simp add: actions_def session_types_def session_action_def austin_def no_circuit_def
      new_year_def parse_defs instant_defs format_defs filter_defs)

lemma actions_append: "actions now (rs @ rs') = actions now rs @ actions now rs'"
  by (simp add: actions_def)

lemma monaco_valid: "valid_datetime (cand_start monaco_cand)" "hour (cand_start monaco_cand) \<le> 21"
  by (simp_all add: monaco_cand_def valid_datetime_def monaco_start_def days_in_month_def is_leap_def)

lemma monaco_body: "body_of monaco_cand = monaco_event"
  by (simp add: body_of_def monaco_cand_def monaco_event_def monaco_start_def)

lemma monaco_first:
  "reconcile_candidate empty_calendar (cand_title monaco_cand) (cand_start monaco_cand)
      (cand_description monaco_cand) (cand_location monaco_cand) c =
     (Inr (c\<lparr>added_count := added_count c + 1\<rparr>), seeded_calendar)"
proof -
  have "seen (events empty_calendar) (cand_title monaco_cand) (cand_start monaco_cand) = None"
    by (simp add: seen_def empty_calendar_def)
  from reconcile_insert[OF _ monaco_valid this, of c]
  show ?thesis by (simp add: empty_calendar_def seeded_calendar_def monaco_body)
qed

lemma monaco_again:
  "reconcile_candidate seeded_calendar (cand_title monaco_cand) (cand_start monaco_cand)
      (cand_description monaco_cand) (cand_location monaco_cand) c =
     (Inr (c\<lparr>updated_count := updated_count c + 1\<rparr>), seeded_calendar)"
proof -
  have "matches monaco_cand \<lparr>ev_id = 1, ev_body = body_of monaco_cand\<rparr>"
    by (rule own_match[OF monaco_valid])
  then have "seen (events seeded_calendar) (cand_title monaco_cand) (cand_start monaco_cand)
      = Some \<lparr>ev_id = 1, ev_body = monaco_event\<rparr>"
    by (intro seen_unique) (simp_all add: seeded_calendar_def monaco_body)
  from reconcile_update_same[OF _ monaco_valid this, of c]
  show ?thesis by (simp add: seeded_calendar_def monaco_body)
qed

lemma find_existing_event_fault:
  "faults cal = True # fs \<Longrightarrow> valid_datetime s \<Longrightarrow>
   find_existing_event cal ttl s = (Inr None, cal\<lparr>faults := fs\<rparr>)"
  by (simp add: find_existing_event_def valid_replace_hms api_list_def remote_call_def)

lemma reconcile_after_failed_lookups:
  assumes "faults cal = [True, True]" "valid_datetime (cand_start k)" "hour (cand_start k) \<le> 21"
  shows "reconcile_candidate cal (cand_title k) (cand_start k) (cand_description k) (cand_location k) c =
           (Inr (c\<lparr>added_count := added_count c + 1\<rparr>),
            cal\<lparr>events := events cal @ [\<lparr>ev_id = next_id cal, ev_body = body_of k\<rparr>],
                next_id := Suc (next_id cal), faults := []\<rparr>)"
proof -
  have f1: "find_existing_event cal (cand_title k) (cand_start k) = (Inr None, cal\<lparr>faults := [True]\<rparr>)"
    using assms(1,2) by (simp add: find_existing_event_fault)
  have f2: "find_existing_event (cal\<lparr>faults := [True]\<rparr>) (cand_title k) (cand_start k)
              = (Inr None, cal\<lparr>faults := []\<rparr>)"
    using assms(2) find_existing_event_fault[of "cal\<lparr>faults := [True]\<rparr>" "[]" "cand_start k" "cand_title k"]
    by simp
  have h: "replace_hour (cand_start k) (hour (cand_start k) + 2)
             = Inr ((cand_start k)\<lparr>hour := hour (cand_start k) + 2\<rparr>)"
    using assms(2,3) by (simp add: valid_replace_hour)
  have ins: "api_insert (cal\<lparr>faults := []\<rparr>) (body_of k) =
     (Inr \<lparr>ev_id = next_id cal, ev_body = body_of k\<rparr>,
      cal\<lparr>events := events cal @ [\<lparr>ev_id = next_id cal, ev_body = body_of k\<rparr>],
          next_id := Suc (next_id cal), faults := []\<rparr>)"
    using api_insert_quiet[of "cal\<lparr>faults := []\<rparr>" "body_of k"] by simp
  show ?thesis
    unfolding reconcile_candidate_def f1 prod.case sum.case Let_def add_or_update_event_def f2 h
      option.case body_of_def[symmetric] ins
    by simp
qed

lemma reconcile_late_hour:
  assumes "valid_datetime (cand_start k)" "22 \<le> hour (cand_start k)"
  shows "\<exists>cal'. reconcile_candidate cal (cand_title k) (cand_start k) (cand_description k) (cand_location k) c =
           (Inl ValueError, cal') \<and> events cal' = events cal"
proof -
  obtain r1 cal1 where f1: "find_existing_event cal (cand_title k) (cand_start k) = (Inr r1, cal1)"
    and e1: "events cal1 = events cal"
    using find_existing_event_total[OF assms(1)] by blast
  obtain r2 cal2 where f2: "find_existing_event cal1 (cand_title k) (cand_start k) = (Inr r2, cal2)"
    and e2: "events cal2 = events cal1"
    using find_existing_event_total[OF assms(1)] by blast
  have h: "replace_hour (cand_start k) (hour (cand_start k) + 2) = Inl ValueError"
    using assms by (simp add: valid_replace_hour)
  show ?thesis
    unfolding reconcile_candidate_def f1 prod.case sum.case Let_def add_or_update_event_def f2 h
    using e1 e2 by simp
qed

section \<open>Splitting at the last separator\<close>

lemma rsplit1_space:
  assumes "sep \<in> set s"
  shows "\<exists>tok. sep \<notin> set tok \<and> s = (rsplit1 sep s ! 0) @ [sep] @ tok"
proof -
  let ?r = "rev s"
  let ?tok = "rev (takeWhile (\<lambda>x. x \<noteq> sep) ?r)"
  have "dropWhile (\<lambda>x. x \<noteq> sep) ?r \<noteq> []" using assms by (simp add: dropWhile_eq_Nil_conv)
  then have "dropWhile (\<lambda>x. x \<noteq> sep) ?r = sep # tl (dropWhile (\<lambda>x. x \<noteq> sep) ?r)"
    using hd_dropWhile[of "\<lambda>x. x \<noteq> sep" ?r] by (cases "dropWhile (\<lambda>x. x \<noteq> sep) ?r") auto
  then have "takeWhile (\<lambda>x. x \<noteq> sep) ?r @ sep # tl (dropWhile (\<lambda>x. x \<noteq> sep) ?r) = ?r"
    by (metis takeWhile_dropWhile_id)
  then have "rev (takeWhile (\<lambda>x. x \<noteq> sep) ?r @ sep # tl (dropWhile (\<lambda>x. x \<noteq> sep) ?r)) = rev ?r"
    by (rule arg_cong)
  then have split: "s = rev (tl (dropWhile (\<lambda>x. x \<noteq> sep) ?r)) @ [sep] @ ?tok" by simp
  have tok: "sep \<notin> set ?tok" by (auto dest: set_takeWhileD)
  have head: "rsplit1 sep s ! 0 = rev (tl (dropWhile (\<lambda>x. x \<noteq> sep) ?r))"
    using assms by (simp add: rsplit1_def)
  show ?thesis unfolding head
    by (rule exI[of _ ?tok], rule conjI, rule tok, rule split)
qed

section \<open>What a write leaves behind\<close>

text \<open>
  Whenever \<^verbatim>\<open>add_or_update_event\<close> returns an identifier, the calendar holds the event
  under that identifier, with the title and start it was given and an end two hours
  after the start. When the two lookups succeed and the write fails, no counter moves
  and the calendar keeps its events.
\<close>

lemma api_insert_written:
  "api_insert cal b = (Inr w, cal') \<Longrightarrow> w \<in> set (events cal') \<and> ev_body w = b"
  by (cases "remote_call cal") (auto simp: api_insert_def Let_def split: bool.splits)

lemma api_update_written:
  "api_update cal i b = (Inr w, cal') \<Longrightarrow> w \<in> set (events cal') \<and> ev_body w = b"
proof -
  assume a: "api_update cal i b = (Inr w, cal')"
  obtain f cal0 where r: "remote_call cal = (f, cal0)" by (cases "remote_call cal") auto
  from a r have i: "i \<in> set (map ev_id (events cal0))" and w: "w = \<lparr>ev_id = i, ev_body = b\<rparr>"
    and c: "events cal' = map (\<lambda>e. if ev_id e = i then e\<lparr>ev_body := b\<rparr> else e) (events cal0)"
    by (auto simp: api_update_def split: bool.splits if_splits)
  from i obtain e where e: "e \<in> set (events cal0)" "ev_id e = i" by auto
  then have "e\<lparr>ev_body := b\<rparr> \<in> set (events cal')" unfolding c by force
  moreover have "e\<lparr>ev_body := b\<rparr> = w" using e(2) w by simp
  ultimately show ?thesis using w by simp
qed

lemma written_event_lasts_two_hours:
  assumes "valid_datetime s" "add_or_update_event cal ttl s d l = (Inr (Some eid), cal')"
  shows "\<exists>e\<in>set (events cal'). ev_id e = eid \<and> summary (ev_body e) = ttl \<and>
            start_time (ev_body e) = s \<and>
            instant (end_time (ev_body e)) = instant s + 7200000000"
proof -
  obtain ex cal1 where f: "find_existing_event cal ttl s = (Inr ex, cal1)"
    using find_existing_event_total[OF assms(1)] by blast
  let ?b = "\<lparr>summary = ttl, description = d, location = l, start_time = s,
             end_time = s\<lparr>hour := hour s + 2\<rparr>\<rparr>"
  have h: "hour s + 2 < 24"
  proof (rule ccontr)
    assume "\<not> hour s + 2 < 24"
    then have "replace_hour s (hour s + 2) = Inl ValueError"
      using assms(1) by (simp add: valid_replace_hour)
    then show False using assms(2) f by (simp add: add_or_update_event_def)
  qed
  then have rh: "replace_hour s (hour s + 2) = Inr (s\<lparr>hour := hour s + 2\<rparr>)"
    using assms(1) by (simp add: valid_replace_hour)
  have "\<exists>w. (case ex of Some e \<Rightarrow> api_update cal1 (ev_id e) ?b | None \<Rightarrow> api_insert cal1 ?b)
            = (Inr w, cal') \<and> ev_id w = eid"
    using assms(2) unfolding add_or_update_event_def f prod.case sum.case rh Let_def
    by (auto split: prod.splits sum.splits if_splits)
  then obtain w where w: "(case ex of Some e \<Rightarrow> api_update cal1 (ev_id e) ?b | None \<Rightarrow> api_insert cal1 ?b)
            = (Inr w, cal')" "ev_id w = eid" by blast
  have "w \<in> set (events cal') \<and> ev_body w = ?b"
    using w(1) api_insert_written api_update_written by (cases ex) auto
  then show ?thesis using w(2) instant_plus_two[of s] by (intro bexI[of _ w]) simp_all
qed

lemma failed_write_moves_no_counter:
  assumes "faults cal = False # False # True # fs" "valid_datetime s" "hour s \<le> 21"
  shows "reconcile_candidate cal ttl s d l c = (Inr c, cal\<lparr>faults := fs\<rparr>)"
proof -
  let ?cal1 = "cal\<lparr>faults := False # True # fs\<rparr>"
  let ?cal2 = "cal\<lparr>faults := True # fs\<rparr>"
  let ?b = "\<lparr>summary = ttl, description = d, location = l, start_time = s,
             end_time = s\<lparr>hour := hour s + 2\<rparr>\<rparr>"
  have f1: "find_existing_event cal ttl s = (Inr (seen (events cal) ttl s), ?cal1)"
    using assms(1,2)
    by (simp add: find_existing_event_def valid_replace_hms api_list_def remote_call_def seen_def)
  have f2: "find_existing_event ?cal1 ttl s = (Inr (seen (events cal) ttl s), ?cal2)"
    using assms(2)
    by (simp add: find_existing_event_def valid_replace_hms api_list_def remote_call_def seen_def)
  have rh: "replace_hour s (hour s + 2) = Inr (s\<lparr>hour := hour s + 2\<rparr>)"
    using assms(2,3) by (simp add: valid_replace_hour)
  have w: "(case seen (events cal) ttl s of Some e \<Rightarrow> api_update ?cal2 (ev_id e) ?b
            | None \<Rightarrow> api_insert ?cal2 ?b) = (Inl HttpError, cal\<lparr>faults := fs\<rparr>)"
    by (cases "seen (events cal) ttl s") (simp_all add: api_insert_def api_update_def remote_call_def)
  show ?thesis
    unfolding reconcile_candidate_def f1 prod.case sum.case Let_def add_or_update_event_def f2 rh w
    by simp
qed

lemma reconcile_insert_after_calls:
  assumes "faults cal = False # False # False # fs" "valid_datetime (cand_start k)"
    and "hour (cand_start k) \<le> 21" "seen (events cal) (cand_title k) (cand_start k) = None"
  shows "reconcile_candidate cal (cand_title k) (cand_start k) (cand_description k) (cand_location k) c =
           (Inr (c\<lparr>added_count := added_count c + 1\<rparr>),
            cal\<lparr>events := events cal @ [\<lparr>ev_id = next_id cal, ev_body = body_of k\<rparr>],
                next_id := Suc (next_id cal), faults := fs\<rparr>)"
proof -
  let ?cal1 = "cal\<lparr>faults := False # False # fs\<rparr>"
  let ?cal2 = "cal\<lparr>faults := False # fs\<rparr>"
  have f1: "find_existing_event cal (cand_title k) (cand_start k) = (Inr None, ?cal1)"
    using assms(1,2,4)
    by (simp add: find_existing_event_def valid_replace_hms api_list_def remote_call_def seen_def)
  have f2: "find_existing_event ?cal1 (cand_title k) (cand_start k) = (Inr None, ?cal2)"
    using assms(2,4)
    by (simp add: find_existing_event_def valid_replace_hms api_list_def remote_call_def seen_def)
  have rh: "replace_hour (cand_start k) (hour (cand_start k) + 2)
              = Inr ((cand_start k)\<lparr>hour := hour (cand_start k) + 2\<rparr>)"
    using assms(2,3) by (simp add: valid_replace_hour)
  have ins: "api_insert ?cal2 (body_of k) =
     (Inr \<lparr>ev_id = next_id cal, ev_body = body_of k\<rparr>,
      cal\<lparr>events := events cal @ [\<lparr>ev_id = next_id cal, ev_body = body_of k\<rparr>],
          next_id := Suc (next_id cal), faults := fs\<rparr>)"
    by (simp add: api_insert_def remote_call_def Let_def)
  show ?thesis
    unfolding reconcile_candidate_def f1 prod.case sum.case Let_def add_or_update_event_def f2 rh
      option.case body_of_def[symmetric] ins
    by simp
qed

text \<open>
  Three eligible candidates, and the create of the second one fails: the two others are
  created and the summary shows two events added.
\<close>

lemma melbourne_valid:
  "valid_datetime (cand_start melbourne_race)" "hour (cand_start melbourne_race) \<le> 21"
  "valid_datetime (cand_start melbourne_qualy)" "hour (cand_start melbourne_qualy) \<le> 21"
  by (simp_all add: melbourne_race_def melbourne_qualy_def melbourne_start_def valid_datetime_def
      days_in_month_def is_leap_def)

lemma one_failed_create_of_three:
  "sync_f1_schedule new_year [monaco, melbourne]
     (empty_calendar\<lparr>faults := [False, False, False, False, False, True]\<rparr>) =
     (Inr [SyncSummary 2 2 0 0 0],
      \<lparr>events = [\<lparr>ev_id = 1, ev_body = monaco_event\<rparr>,
                 \<lparr>ev_id = 2, ev_body = body_of melbourne_qualy\<rparr>],
       next_id = 3, faults = []\<rparr>)"
proof -
  let ?cal0 = "empty_calendar\<lparr>faults := [False, False, False, False, False, True]\<rparr>"
  let ?cal1 = "seeded_calendar\<lparr>faults := [False, False, True]\<rparr>"
  have s1: "reconcile_candidate ?cal0 (cand_title monaco_cand) (cand_start monaco_cand)
              (cand_description monaco_cand) (cand_location monaco_cand) c =
            (Inr (c\<lparr>added_count := added_count c + 1\<rparr>), ?cal1)" for c
    using reconcile_insert_after_calls[OF _ monaco_valid, of ?cal0 "[False, False, True]" c]
    by (simp add: empty_calendar_def seeded_calendar_def seen_def monaco_body)
  have s2: "reconcile_candidate ?cal1 (cand_title melbourne_race) (cand_start melbourne_race)
              (cand_description melbourne_race) (cand_location melbourne_race) c =
            (Inr c, seeded_calendar)" for c
    using failed_write_moves_no_counter[OF _ melbourne_valid(1,2), of ?cal1 "[]"
        "cand_title melbourne_race" "cand_description melbourne_race" "cand_location melbourne_race" c]
    by (simp add: seeded_calendar_def)
  have "list_all (\<lambda>e. \<not> matches melbourne_qualy e) (events seeded_calendar)"
    by (simp add: seeded_calendar_def matches_def melbourne_qualy_def monaco_event_def)
  then have "seen (events seeded_calendar) (cand_title melbourne_qualy) (cand_start melbourne_qualy) = None"
    by (rule seen_None)
  from reconcile_insert[OF _ melbourne_valid(3,4) this]
  have s3: "reconcile_candidate seeded_calendar (cand_title melbourne_qualy) (cand_start melbourne_qualy)
              (cand_description melbourne_qualy) (cand_location melbourne_qualy) c =
            (Inr (c\<lparr>added_count := added_count c + 1\<rparr>),
             \<lparr>events = [\<lparr>ev_id = 1, ev_body = monaco_event\<rparr>,
                        \<lparr>ev_id = 2, ev_body = body_of melbourne_qualy\<rparr>],
              next_id = 3, faults = []\<rparr>)" for c
    by (simp add: seeded_calendar_def)
  show ?thesis
    using actions_append[of "utc_now new_year" "[monaco]" "[melbourne]"]
    by (simp add: sync_f1_schedule_def sync_races_actions monaco_actions melbourne_actions s1 s2 s3
        summary_report_def closing_remarks_def zero_counts_def)
qed

section \<open>The shape of a date and a time that parse\<close>

text \<open>
  Whatever parses was a date of ten date characters and a time that begins with two
  digits; the result is aware exactly when the time carries a designator, and a
  trailing \<^verbatim>\<open>Z\<close> alone gives offset zero. Everything else, and every date that names
  no day of the calendar, gives \<^verbatim>\<open>None\<close>.
\<close>

lemma field_digit:
  assumes "field k n s = Some v" "k \<le> i" "i < k + n" "i < length s"
  shows "is_digit (s ! i)"
proof -
  have a: "list_all is_digit (take n (drop k s))"
    using assms(1) by (simp add: field_def digits_def split: if_splits)
  have b: "i - k < length (take n (drop k s))" using assms(2-4) by (simp, arith)
  have "(take n (drop k s)) ! (i - k) = s ! i" using assms(2-4) by simp
  then show ?thesis using a b unfolding list_all_length by metis
qed

lemma parse_hh_mm_ss_ff_chars:
  assumes "parse_hh_mm_ss_ff s = Some r"
  shows "list_all time_char s"
  unfolding list_all_length
proof (intro allI impI)
  fix i assume i: "i < length s"
  let ?n = "length s"
  consider (a) "?n = 2" | (b) "?n = 5" | (c) "?n = 8" | (d) "?n = 12" | (e) "?n = 15"
    using assms by (auto simp: parse_hh_mm_ss_ff_def Let_def split: if_splits)
  then show "time_char (s ! i)"
  proof cases
    case a
    then obtain h where "field 0 2 s = Some h"
      using assms by (auto simp: parse_hh_mm_ss_ff_def Let_def split: if_splits option.splits)
    from field_digit[OF this _ _ i] i a show ?thesis by (simp add: time_char_def)
  next
    case b
    then obtain h m where f: "field 0 2 s = Some h" "field 3 2 s = Some m" and c: "s ! 2 = CHR '':''"
      using assms by (auto simp: parse_hh_mm_ss_ff_def Let_def split: if_splits option.splits)
    consider "i < 2" | "i = 2" | "3 \<le> i \<and> i < 5" using i b by linarith
    then show ?thesis
      using field_digit[OF f(1) _ _ i] field_digit[OF f(2) _ _ i] c
      by cases (auto simp: time_char_def)
  next
    case c
    then obtain h m x where f: "field 0 2 s = Some h" "field 3 2 s = Some m" "field 6 2 s = Some x"
      and c: "s ! 2 = CHR '':''" "s ! 5 = CHR '':''"
      using assms by (auto simp: parse_hh_mm_ss_ff_def Let_def split: if_splits option.splits)
    consider "i < 2" | "i = 2" | "3 \<le> i \<and> i < 5" | "i = 5" | "6 \<le> i \<and> i < 8"
      using i \<open>?n = 8\<close> by linarith
    then show ?thesis
      using field_digit[OF f(1) _ _ i] field_digit[OF f(2) _ _ i] field_digit[OF f(3) _ _ i] c
      by cases (auto simp: time_char_def)
  next
    case d
    then obtain h m x u where f: "field 0 2 s = Some h" "field 3 2 s = Some m" "field 6 2 s = Some x"
      "field 9 3 s = Some u"
      and c: "s ! 2 = CHR '':''" "s ! 5 = CHR '':''" "s ! 8 = CHR ''.''"
      using assms by (auto simp: parse_hh_mm_ss_ff_def Let_def split: if_splits option.splits)
    consider "i < 2" | "i = 2" | "3 \<le> i \<and> i < 5" | "i = 5" | "6 \<le> i \<and> i < 8" | "i = 8"
      | "9 \<le> i \<and> i < 12"
      using i d by linarith
    then show ?thesis
      using field_digit[OF f(1) _ _ i] field_digit[OF f(2) _ _ i] field_digit[OF f(3) _ _ i]
        field_digit[OF f(4) _ _ i] c
      by cases (auto simp: time_char_def)
  next
    case e
    then obtain h m x u where f: "field 0 2 s = Some h" "field 3 2 s = Some m" "field 6 2 s = Some x"
      "field 9 6 s = Some u"
      and c: "s ! 2 = CHR '':''" "s ! 5 = CHR '':''" "s ! 8 = CHR ''.''"
      using assms by (auto simp: parse_hh_mm_ss_ff_def Let_def split: if_splits option.splits)
    consider "i < 2" | "i = 2" | "3 \<le> i \<and> i < 5" | "i = 5" | "6 \<le> i \<and> i < 8" | "i = 8"
      | "9 \<le> i \<and> i < 15"
      using i e by linarith
    then show ?thesis
      using field_digit[OF f(1) _ _ i] field_digit[OF f(2) _ _ i] field_digit[OF f(3) _ _ i]
        field_digit[OF f(4) _ _ i] c
      by cases (auto simp: time_char_def)
  qed
qed

lemma parse_hh_mm_ss_ff_hour:
  assumes "parse_hh_mm_ss_ff s = Some r"
  shows "2 \<le> length s \<and> is_digit (s ! 0) \<and> is_digit (s ! 1)"
proof -
  have n: "2 \<le> length s"
    using assms by (auto simp: parse_hh_mm_ss_ff_def Let_def split: if_splits)
  obtain h where f: "field 0 2 s = Some h"
    using assms by (auto simp: parse_hh_mm_ss_ff_def Let_def split: if_splits option.splits)
  have l: "0 < length s" "1 < length s" using n by linarith+
  show ?thesis using n field_digit[OF f _ _ l(1)] field_digit[OF f _ _ l(2)] by simp
qed

lemma parse_isoformat_date_chars:
  assumes "parse_isoformat_date s = Some r"
  shows "length s = 10 \<and> list_all date_char s"
proof -
  have n: "length s = 10" and c: "s ! 4 = CHR ''-''" "s ! 7 = CHR ''-''"
    using assms by (auto simp: parse_isoformat_date_def split: if_splits)
  obtain y m d where f: "field 0 4 s = Some y" "field 5 2 s = Some m" "field 8 2 s = Some d"
    using assms by (auto simp: parse_isoformat_date_def split: if_splits option.splits)
  have "date_char (s ! i)" if i: "i < length s" for i
  proof -
    consider "i < 4" | "i = 4" | "5 \<le> i \<and> i < 7" | "i = 7" | "8 \<le> i \<and> i < 10"
      using i n by linarith
    then show ?thesis
      using field_digit[OF f(1) _ _ i] field_digit[OF f(2) _ _ i] field_digit[OF f(3) _ _ i] c
      by cases (auto simp: date_char_def)
  qed
  then show ?thesis using n by (simp add: list_all_length)
qed

lemma parse_isoformat_time_chars:
  assumes "parse_isoformat_time x = Some r"
  shows "list_all (\<lambda>c. time_char c \<or> is_sign c) x"
proof -
  let ?P = "\<lambda>c. \<not> is_sign c"
  obtain q where q: "parse_hh_mm_ss_ff (takeWhile ?P x) = Some q"
    using assms by (auto simp: parse_isoformat_time_def Let_def split: option.splits)
  have a: "list_all time_char (takeWhile ?P x)" by (rule parse_hh_mm_ss_ff_chars[OF q])
  have b: "list_all (\<lambda>c. time_char c \<or> is_sign c) (dropWhile ?P x)"
  proof (cases "dropWhile ?P x")
    case Nil
    show ?thesis unfolding Nil by simp
  next
    case (Cons sg tz)
    have sg: "is_sign sg" using hd_dropWhile[of ?P x] Cons by simp
    obtain q' where "parse_hh_mm_ss_ff tz = Some q'"
      using assms q Cons
      by (auto simp: parse_isoformat_time_def Let_def parse_offset_def split: option.splits if_splits)
    from parse_hh_mm_ss_ff_chars[OF this] show ?thesis using Cons sg by (simp add: list_all_iff)
  qed
  have "x = takeWhile ?P x @ dropWhile ?P x" by simp
  then have "list_all (\<lambda>c. time_char c \<or> is_sign c) x =
     (list_all (\<lambda>c. time_char c \<or> is_sign c) (takeWhile ?P x) \<and>
      list_all (\<lambda>c. time_char c \<or> is_sign c) (dropWhile ?P x))"
    by (metis list_all_append)
  then show ?thesis using a b by (simp add: list_all_iff)
qed

lemma replace_take_plain:
  assumes "list_all (\<lambda>c. c \<noteq> CHR ''+'') (take n (str_replace (CHR ''Z'') ''+00:00'' d))"
    and "n \<le> length (str_replace (CHR ''Z'') ''+00:00'' d)"
  shows "take n d = take n (str_replace (CHR ''Z'') ''+00:00'' d) \<and> n \<le> length d"
  using assms
proof (induction d arbitrary: n)
  case Nil
  then show ?case by (simp add: str_replace_def)
next
  case (Cons c d)
  show ?case
  proof (cases n)
    case 0
    then show ?thesis by simp
  next
    case (Suc k)
    have cz: "c \<noteq> CHR ''Z''" using Cons.prems(1) Suc by (auto simp: str_replace_def)
    then have r: "str_replace (CHR ''Z'') ''+00:00'' (c # d) = c # str_replace (CHR ''Z'') ''+00:00'' d"
      by (simp add: str_replace_def)
    have "take k d = take k (str_replace (CHR ''Z'') ''+00:00'' d) \<and> k \<le> length d"
      using Cons.prems Suc unfolding r by (intro Cons.IH) simp_all
    then show ?thesis unfolding r Suc by simp
  qed
qed

lemma replace_nonempty: "d \<noteq> [] \<Longrightarrow> str_replace c (x # xs) d \<noteq> []"
  by (cases d) (simp_all add: str_replace_def)

lemma date_char_simps [simp]:
  "\<not> date_char (CHR ''T'')" "\<not> date_char (CHR ''+'')" "\<not> date_char (CHR ''Z'')"
  by (simp_all add: date_char_def is_digit_def)

lemma time_char_T [simp]: "\<not> time_char (CHR ''T'')" "\<not> is_sign (CHR ''T'')"
  by (simp_all add: time_char_def is_digit_def is_sign_def)

lemma parse_shape:
  assumes "parse_f1_datetime d t = Inr (Some dt)"
  shows "length d = 10 \<and> list_all date_char d \<and>
         (\<exists>h mi sec us. parse_isoformat_time (str_replace (CHR ''Z'') ''+00:00'' t)
                           = Some (h, mi, sec, us, tzinfo dt))"
proof -
  let ?R = "str_replace (CHR ''Z'') ''+00:00''"
  define s where "s = ?R d @ CHR ''T'' # ?R t"
  have se: "?R (d @ ''T'' @ t) = s" by (simp add: str_replace_def s_def)
  have ne: "d \<noteq> []" "t \<noteq> []" and fi: "fromisoformat s = Inr dt"
    using assms unfolding parse_f1_datetime_def Let_def se
    by (auto split: if_splits sum.splits)
  obtain y m dd where pd: "parse_isoformat_date (take 10 s) = Some (y, m, dd)"
    using fi unfolding fromisoformat_def by (auto split: option.splits)
  from parse_isoformat_date_chars[OF pd]
  have l10: "length (take 10 s) = 10" and dc: "list_all date_char (take 10 s)" by simp_all
  have ge: "10 \<le> length (?R d)"
  proof (rule ccontr)
    assume "\<not> 10 \<le> length (?R d)"
    then have lt: "length (?R d) < 10" by simp
    have "length (?R d) < length (take 10 s)" using lt l10 by simp
    then have "date_char (take 10 s ! length (?R d))" using dc unfolding list_all_length by blast
    moreover have "take 10 s ! length (?R d) = s ! length (?R d)" using lt by (rule nth_take)
    moreover have "s ! length (?R d) = CHR ''T''" unfolding s_def by simp
    ultimately show False by simp
  qed
  then have t10: "take 10 s = take 10 (?R d)" by (simp add: s_def)
  have np: "list_all (\<lambda>c. c \<noteq> CHR ''+'') (take 10 (?R d))"
    using dc unfolding t10 by (auto simp: list_all_iff)
  from replace_take_plain[OF np ge]
  have td: "take 10 d = take 10 (?R d)" and ld: "10 \<le> length d" by simp_all
  have dc': "list_all date_char (take 10 d)" using dc unfolding t10 td .
  then have nz: "CHR ''Z'' \<notin> set (take 10 d)" by (auto simp: list_all_iff)
  have "?R d = ?R (take 10 d @ drop 10 d)" by simp
  also have "\<dots> = ?R (take 10 d) @ ?R (drop 10 d)" by (rule str_replace_append)
  also have "\<dots> = take 10 d @ ?R (drop 10 d)" unfolding str_replace_absent[OF nz] ..
  finally have rd: "?R d = take 10 d @ ?R (drop 10 d)" .
  have lt10: "length (take 10 d) = 10" using ld by simp
  have len: "length d = 10"
  proof (rule ccontr)
    assume "length d \<noteq> 10"
    then have "drop 10 d \<noteq> []" using ld by simp
    then have "?R (drop 10 d) \<noteq> []" by (rule replace_nonempty)
    then obtain x xs where x: "?R (drop 10 d) = x # xs" by (cases "?R (drop 10 d)") auto
    have s': "s = take 10 d @ x # xs @ CHR ''T'' # ?R t" unfolding s_def rd x by simp
    have l: "length s \<noteq> 10" and dr: "drop 11 s = xs @ CHR ''T'' # ?R t"
      unfolding s' using lt10 by simp_all
    obtain q where "parse_isoformat_time (drop 11 s) = Some q"
      using fi l unfolding fromisoformat_def pd by (auto split: option.splits)
    from parse_isoformat_time_chars[OF this] show False unfolding dr by simp
  qed
  then have dd: "take 10 d = d" "drop 10 d = []" by simp_all
  have sd: "s = d @ CHR ''T'' # ?R t" unfolding s_def rd dd by (simp add: str_replace_def)
  have l: "length s \<noteq> 10" and dr: "drop 11 s = ?R t" unfolding sd using len by simp_all
  have "\<exists>h mi sec us. parse_isoformat_time (?R t) = Some (h, mi, sec, us, tzinfo dt)"
    using fi l unfolding fromisoformat_def pd dr
    by (auto simp: new_datetime_Inr split: option.splits)
  then show ?thesis using len dc' dd by simp
qed

lemma sign_replace:
  "(\<exists>c\<in>set (str_replace (CHR ''Z'') ''+00:00'' t). is_sign c) = has_designator t"
proof (induction t)
  case Nil
  show ?case by (simp add: str_replace_def has_designator_def)
next
  case (Cons a t)
  let ?R = "str_replace (CHR ''Z'') ''+00:00''"
  have h: "has_designator (a # t) = (a = CHR ''Z'' \<or> is_sign a \<or> has_designator t)"
    by (simp add: has_designator_def)
  show ?case
  proof (cases "a = CHR ''Z''")
    case True
    have "?R (a # t) = CHR ''+'' # ''00:00'' @ ?R t" unfolding True by (simp add: str_replace_def)
    then have "CHR ''+'' \<in> set (?R (a # t))" by simp
    moreover have "is_sign (CHR ''+'')" by (simp add: is_sign_def)
    ultimately have "\<exists>c\<in>set (?R (a # t)). is_sign c" by (rule bexI[rotated])
    then show ?thesis unfolding h using True by simp
  next
    case False
    then have "?R (a # t) = a # ?R t" by (simp add: str_replace_def)
    then show ?thesis unfolding h using False Cons.IH by simp
  qed
qed

lemma parse_aware_iff:
  assumes "parse_f1_datetime d t = Inr (Some dt)"
  shows "(tzinfo dt \<noteq> None) = has_designator t"
proof -
  let ?R = "str_replace (CHR ''Z'') ''+00:00''"
  let ?P = "\<lambda>c. \<not> is_sign c"
  obtain h mi sec us where p: "parse_isoformat_time (?R t) = Some (h, mi, sec, us, tzinfo dt)"
    using parse_shape[OF assms] by blast
  have "(tzinfo dt = None) = (dropWhile ?P (?R t) = [])"
    using p unfolding parse_isoformat_time_def Let_def
    by (auto split: option.splits if_splits)
  also have "\<dots> = (\<not> (\<exists>c\<in>set (?R t). is_sign c))" by (auto simp: dropWhile_eq_Nil_conv)
  finally have "(tzinfo dt = None) = (\<not> has_designator t)" unfolding sign_replace .
  then show ?thesis by simp
qed

lemma parse_trailing_Z:
  assumes "parse_f1_datetime d (base @ ''Z'') = Inr (Some dt)" "\<not> has_designator base"
  shows "tzinfo dt = Some 0"
proof -
  let ?R = "str_replace (CHR ''Z'') ''+00:00''"
  let ?P = "\<lambda>c. \<not> is_sign c"
  have nb: "\<forall>c\<in>set base. c \<noteq> CHR ''Z'' \<and> \<not> is_sign c"
    using assms(2) by (auto simp: has_designator_def list_ex_iff)
  then have "CHR ''Z'' \<notin> set base" by blast
  then have rb: "?R base = base" by (rule str_replace_absent)
  have r: "?R (base @ ''Z'') = base @ ''+00:00''"
    unfolding str_replace_append rb by (simp add: str_replace_def)
  have tw: "takeWhile ?P (base @ ''+00:00'') = base"
    and dw: "dropWhile ?P (base @ ''+00:00'') = ''+00:00''"
    using nb by (simp_all add: takeWhile_append2 dropWhile_append2 is_sign_def)
  have po: "parse_offset ''+00:00'' = Some 0"
    by (simp add: parse_offset_def parse_hh_mm_ss_ff_def field_def digits_def is_digit_def digit_val_def)
  obtain h mi sec us where p: "parse_isoformat_time (base @ ''+00:00'') = Some (h, mi, sec, us, tzinfo dt)"
    using parse_shape[OF assms(1)] unfolding r by blast
  show ?thesis
    using p unfolding parse_isoformat_time_def Let_def tw dw po
    by (auto split: option.splits)
qed

lemma takeWhile_two:
  assumes "2 \<le> length (takeWhile (\<lambda>c. \<not> is_sign c) (str_replace (CHR ''Z'') ''+00:00'' t))"
  shows "2 \<le> length t \<and>
         take 2 t = take 2 (takeWhile (\<lambda>c. \<not> is_sign c) (str_replace (CHR ''Z'') ''+00:00'' t))"
proof (cases t)
  case Nil
  then show ?thesis using assms by (simp add: str_replace_def)
next
  case (Cons a t')
  show ?thesis
  proof (cases t')
    case Nil
    then show ?thesis using assms Cons by (simp add: str_replace_def is_sign_def split: if_splits)
  next
    case (Cons b t'')
    then show ?thesis using assms \<open>t = a # t'\<close>
      by (simp add: str_replace_def is_sign_def split: if_splits)
  qed
qed

lemma parse_time_hour:
  assumes "parse_f1_datetime d t = Inr (Some dt)"
  shows "2 \<le> length t \<and> list_all is_digit (take 2 t)"
proof -
  let ?R = "str_replace (CHR ''Z'') ''+00:00''"
  let ?P = "\<lambda>c. \<not> is_sign c"
  obtain h mi sec us where p: "parse_isoformat_time (?R t) = Some (h, mi, sec, us, tzinfo dt)"
    using parse_shape[OF assms] by blast
  then obtain q where q: "parse_hh_mm_ss_ff (takeWhile ?P (?R t)) = Some q"
    unfolding parse_isoformat_time_def Let_def by (auto split: option.splits)
  from parse_hh_mm_ss_ff_hour[OF q]
  have n: "2 \<le> length (takeWhile ?P (?R t))"
    and dg: "is_digit (takeWhile ?P (?R t) ! 0)" "is_digit (takeWhile ?P (?R t) ! 1)" by simp_all
  from takeWhile_two[OF n]
  have l: "2 \<le> length t" and e: "take 2 t = take 2 (takeWhile ?P (?R t))" by simp_all
  have "list_all is_digit (take 2 (takeWhile ?P (?R t)))"
    using n dg unfolding list_all_length by (auto simp: less_Suc_eq numeral_2_eq_2)
  then show ?thesis using l e by simp
qed

lemma parse_malformed:
  assumes "d = [] \<or> t = [] \<or> list_ex (\<lambda>c. \<not> date_char c) d \<or> length t < 2 \<or>
           \<not> list_all is_digit (take 2 t)"
  shows "parse_f1_datetime d t = Inr None"
proof -
  obtain r where r: "parse_f1_datetime d t = Inr r" using parse_f1_datetime_total by blast
  show ?thesis
  proof (cases r)
    case None
    then show ?thesis using r by simp
  next
    case (Some dt)
    then have p: "parse_f1_datetime d t = Inr (Some dt)" using r by simp
    have ne: "d \<noteq> []" "t \<noteq> []"
      using p by (auto simp: parse_f1_datetime_def)
    have "list_all date_char d" using parse_shape[OF p] by blast
    then have "\<not> list_ex (\<lambda>c. \<not> date_char c) d" by (simp add: list_all_iff list_ex_iff)
    moreover have "2 \<le> length t \<and> list_all is_digit (take 2 t)" by (rule parse_time_hour[OF p])
    ultimately have False using assms ne by auto
    then show ?thesis ..
  qed
qed

lemma parse_out_of_range:
  assumes "y \<le> 9999" "m < 100" "dd < 100"
    and "\<not> (1 \<le> y \<and> 1 \<le> m \<and> m \<le> 12 \<and> 1 \<le> dd \<and> dd \<le> days_in_month y m)"
  shows "parse_f1_datetime (iso_date y m dd) t = Inr None"
proof (cases "t = []")
  case True
  then show ?thesis by (simp add: parse_f1_datetime_def)
next
  case False
  let ?R = "str_replace (CHR ''Z'') ''+00:00''"
  let ?s = "iso_date y m dd @ CHR ''T'' # ?R t"
  have ne: "iso_date y m dd \<noteq> []" by (simp add: iso_date_def two_def)
  have "?R (iso_date y m dd @ ''T'' @ t) = ?R (iso_date y m dd) @ ?R (''T'' @ t)"
    by (rule str_replace_append)
  also have "?R (iso_date y m dd) = iso_date y m dd"
    by (rule str_replace_absent[OF iso_date_no_Z])
  also have "?R (''T'' @ t) = CHR ''T'' # ?R t" by (simp add: str_replace_def)
  finally have r: "?R (iso_date y m dd @ ''T'' @ t) = ?s" .
  have pd: "parse_isoformat_date (iso_date y m dd) = Some (y, m, dd)"
    using assms(1-3) by (intro parse_iso_date) simp_all
  have t1: "take 10 ?s = iso_date y m dd" "drop 11 ?s = ?R t" "length ?s \<noteq> 10"
    by (simp_all add: length_iso_date)
  have nv: "\<not> valid_datetime \<lparr>year = y, month = m, day = dd, hour = h, minute = mi, second = sec,
                                microsecond = us, tzinfo = tz\<rparr>" for h mi sec us tz
    using assms(4) by (auto simp: valid_datetime_def)
  have "fromisoformat ?s = Inl ValueError"
    unfolding fromisoformat_def t1 pd
    by (simp add: new_datetime_def nv split: option.splits)
  then show ?thesis
    using False ne unfolding parse_f1_datetime_def Let_def r by simp
qed

section \<open>The filter on aware and on naive instants\<close>

text \<open>
  Against the aware current time, an aware instant is past when it is strictly earlier
  and future otherwise, the current instant included. A naive one makes the comparison
  raise \<^verbatim>\<open>TypeError\<close>, and the pass ends there.
\<close>

lemma temporal_filter_aware:
  "(parse_f1_datetime d t = Inr None \<longrightarrow> temporal_filter (utc_now clock) d t = Inr Invalid) \<and>
   (\<forall>dt. parse_f1_datetime d t = Inr (Some dt) \<and> tzinfo dt \<noteq> None \<longrightarrow>
       temporal_filter (utc_now clock) d t =
         Inr (if instant dt < instant (utc_now clock) then Past else Future dt))"
  by (auto simp: temporal_filter_def dt_less_def utc_now_def)

lemma lights_out_is_future:
  "instant melbourne_start = instant (utc_now lights_out) \<and>
   temporal_filter (utc_now lights_out) ''2025-03-16'' ''04:00:00Z'' = Inr (Future melbourne_start)"
proof -
  have a: "parse_f1_datetime ''2025-03-16'' ''04:00:00Z'' = Inr (Some melbourne_start)"
    by (simp add: parse_defs melbourne_start_def)
  have b: "tzinfo melbourne_start \<noteq> None" by (simp add: melbourne_start_def)
  have c: "instant melbourne_start = instant (utc_now lights_out)"
    by (simp add: melbourne_start_def lights_out_def utc_now_def instant_def)
  from temporal_filter_aware[of "''2025-03-16''" "''04:00:00Z''" lights_out] a b c
  show ?thesis by simp
qed

lemma temporal_filter_naive:
  assumes "parse_f1_datetime d t = Inr (Some dt)" "tzinfo dt = None"
  shows "temporal_filter (utc_now clock) d t = Inl TypeError"
  using assms by (simp add: temporal_filter_def dt_less_def utc_now_def)

lemma imola_parse: "parse_f1_datetime ''2025-05-18'' ''13:00:00'' = Inr (Some imola_start)"
  by (simp add: parse_defs imola_start_def)

lemma imola_actions:
  "actions (utc_now new_year) [imola] = [Raise TypeError, Skip, Skip, Skip]"
proof -
  have "temporal_filter (utc_now new_year) ''2025-05-18'' ''13:00:00'' = Inl TypeError"
    by (rule temporal_filter_naive[OF imola_parse]) (simp add: imola_start_def)
  then show ?thesis
    by (simp add: actions_def session_types_def session_action_def imola_def)
qed

section \<open>The claims\<close>

subsection \<open>C1: running the pass twice\<close>

text \<open>
  C1, as amended. Take a non-empty feed and a well-formed calendar with no remote
  failure and no interference. Let the filter raise nothing, let every eligible
  candidate start at 21:59:59 or earlier, let the calendar hold no event that matches a
  candidate, and let no candidate match the event of another. Then the first pass
  reports added = N and updated = 0 for the N eligible candidates and creates exactly
  their events; the second pass reports added = 0 and updated = N and leaves the
  calendar as it was, every event replaced by identical field values.
\<close>

theorem reconcile_twice:
  assumes "races \<noteq> []" "faults cal = []" "wf_calendar cal"
    and "filter_passes clock races"
    and "list_all (\<lambda>k. hour (cand_start k) \<le> 21) (eligible clock races)"
    and "unseen cal (eligible clock races)"
    and "distinct_keys (eligible clock races)"
  shows "\<exists>cal1.
           sync_f1_schedule clock races cal =
             (Inr (summary_report (length races)
                     \<lparr>added_count = length (eligible clock races), updated_count = 0,
                      past_count = past_sessions clock races,
                      invalid_date_count = invalid_sessions clock races\<rparr>), cal1) \<and>
           events cal1 = events cal @ created (next_id cal) (eligible clock races) \<and>
           sync_f1_schedule clock races cal1 =
             (Inr (summary_report (length races)
                     \<lparr>added_count = 0, updated_count = length (eligible clock races),
                      past_count = past_sessions clock races,
                      invalid_date_count = invalid_sessions clock races\<rparr>), cal1)"
proof -
  let ?as = "actions (utc_now clock) races"
  let ?ks = "eligible clock races"
  let ?cal1 = "cal\<lparr>events := events cal @ created (next_id cal) ?ks,
                  next_id := next_id cal + length ?ks\<rparr>"
  have ks: "eligible_of ?as = ?ks" by (simp add: eligible_def)
  have nr: "list_all (\<lambda>a. \<not> is_raise a) ?as" using assms(4) by (simp add: filter_passes_def)
  have vh: "list_all (\<lambda>k. valid_datetime (cand_start k) \<and> hour (cand_start k) \<le> 21) (eligible_of ?as)"
    using assms(5) eligible_valid[of _ clock races] unfolding ks by (auto simp: list_all_iff)
  have first: "run_actions ?as zero_counts cal =
      (Inr (bump ?as (zero_counts\<lparr>added_count := added_count zero_counts + length ?ks\<rparr>)), ?cal1)"
    using run_first[OF assms(2) nr vh, of zero_counts] assms(6,7) unfolding ks by simp
  have f1: "faults ?cal1 = []" using assms(2) by simp
  have d1: "distinct (map ev_id (events ?cal1))" using wf_after_first[OF assms(3)] by simp
  have s1: "\<exists>e. seen (events ?cal1) (cand_title k) (cand_start k) = Some e \<and> ev_body e = body_of k"
    if "k \<in> set (eligible_of ?as)" for k
    using seen_after_first[OF assms(6,7) vh[unfolded ks]] that unfolding ks by simp
  have second: "run_actions ?as zero_counts ?cal1 =
      (Inr (bump ?as (zero_counts\<lparr>updated_count := updated_count zero_counts + length ?ks\<rparr>)), ?cal1)"
    using run_second[OF f1 d1 nr vh s1, of zero_counts] unfolding ks by simp
  have b1: "bump ?as (zero_counts\<lparr>added_count := added_count zero_counts + length ?ks\<rparr>) =
      \<lparr>added_count = length ?ks, updated_count = 0, past_count = past_sessions clock races,
       invalid_date_count = invalid_sessions clock races\<rparr>"
    by (simp add: bump_def zero_counts_def past_sessions_def invalid_sessions_def)
  have b2: "bump ?as (zero_counts\<lparr>updated_count := updated_count zero_counts + length ?ks\<rparr>) =
      \<lparr>added_count = 0, updated_count = length ?ks, past_count = past_sessions clock races,
       invalid_date_count = invalid_sessions clock races\<rparr>"
    by (simp add: bump_def zero_counts_def past_sessions_def invalid_sessions_def)
  show ?thesis
    using assms(1) first second
    by (intro exI[of _ ?cal1]) (simp add: sync_f1_schedule_def sync_races_actions b1 b2)
qed

theorem reconcile_twice_melbourne:
  "[melbourne] \<noteq> [] \<and> faults empty_calendar = [] \<and> wf_calendar empty_calendar \<and>
   filter_passes new_year [melbourne] \<and>
   list_all (\<lambda>k. hour (cand_start k) \<le> 21) (eligible new_year [melbourne]) \<and>
   unseen empty_calendar (eligible new_year [melbourne]) \<and>
   distinct_keys (eligible new_year [melbourne]) \<and>
   length (eligible new_year [melbourne]) = 2 \<and>
   (\<exists>cal1. sync_f1_schedule new_year [melbourne] empty_calendar = (Inr [SyncSummary 1 2 0 0 0], cal1) \<and>
           sync_f1_schedule new_year [melbourne] cal1 = (Inr [SyncSummary 1 0 2 0 0], cal1))"
proof -
  have h1: "[melbourne] \<noteq> []" by simp
  have h2: "faults empty_calendar = []" by (simp add: empty_calendar_def)
  have h3: "wf_calendar empty_calendar" by (simp add: wf_calendar_def empty_calendar_def)
  have h4: "filter_passes new_year [melbourne]"
    by (simp add: filter_passes_def melbourne_actions)
  have h5: "list_all (\<lambda>k. hour (cand_start k) \<le> 21) (eligible new_year [melbourne])"
    by (simp add: eligible_def melbourne_actions melbourne_race_def melbourne_qualy_def
        melbourne_start_def)
  have h6: "unseen empty_calendar (eligible new_year [melbourne])"
    by (simp add: unseen_def empty_calendar_def list_all_iff)
  have h7: "distinct_keys (eligible new_year [melbourne])"
    by (simp add: eligible_def melbourne_actions clash_def matches_def body_of_def
        melbourne_race_def melbourne_qualy_def)
  have n: "length (eligible new_year [melbourne]) = 2"
    by (simp add: eligible_def melbourne_actions)
  have p: "past_sessions new_year [melbourne] = 0" "invalid_sessions new_year [melbourne] = 0"
    by (simp_all add: past_sessions_def invalid_sessions_def melbourne_actions)
  from reconcile_twice[OF h1 h2 h3 h4 h5 h6 h7] obtain cal1 where
    "sync_f1_schedule new_year [melbourne] empty_calendar =
       (Inr (summary_report (length [melbourne])
          \<lparr>added_count = length (eligible new_year [melbourne]), updated_count = 0,
           past_count = past_sessions new_year [melbourne],
           invalid_date_count = invalid_sessions new_year [melbourne]\<rparr>), cal1)"
    "sync_f1_schedule new_year [melbourne] cal1 =
       (Inr (summary_report (length [melbourne])
          \<lparr>added_count = 0, updated_count = length (eligible new_year [melbourne]),
           past_count = past_sessions new_year [melbourne],
           invalid_date_count = invalid_sessions new_year [melbourne]\<rparr>), cal1)"
    by blast
  then have "sync_f1_schedule new_year [melbourne] empty_calendar = (Inr [SyncSummary 1 2 0 0 0], cal1) \<and>
           sync_f1_schedule new_year [melbourne] cal1 = (Inr [SyncSummary 1 0 2 0 0], cal1)"
    unfolding n p by (simp add: summary_report_def closing_remarks_def)
  with h1 h2 h3 h4 h5 h6 h7 n show ?thesis by blast
qed

text \<open>
  The claim as stated fails when two eligible candidates share the dedup key: for a
  feed that lists the Monaco race twice, N = 2, and the first pass reports one event
  added and one updated.
\<close>

theorem reconcile_duplicate_feed:
  "length (eligible new_year [monaco, monaco]) = 2 \<and>
   sync_f1_schedule new_year [monaco, monaco] empty_calendar =
     (Inr [SyncSummary 2 1 1 0 0], seeded_calendar)"
  using actions_append[of "utc_now new_year" "[monaco]" "[monaco]"]
  by (simp add: eligible_def sync_defs monaco_actions monaco_first monaco_again)

subsection \<open>C2: the dedup invariant\<close>

text \<open>
  C2. The calendar holds the Monaco event, so the invariant holds. One pass over the
  feed that lists this race, in which both lookups for it fail with a provider error
  and the create succeeds, leaves two events with the same title on the same day.
\<close>

theorem dedup_broken_by_failed_lookup:
  "dedup_invariant (events seeded_calendar) \<and>
   sync_f1_schedule new_year [monaco] (seeded_calendar\<lparr>faults := [True, True]\<rparr>) =
     (Inr [SyncSummary 1 1 0 0 0],
      \<lparr>events = [\<lparr>ev_id = 1, ev_body = monaco_event\<rparr>, \<lparr>ev_id = 2, ev_body = monaco_event\<rparr>],
       next_id = 3, faults = []\<rparr>) \<and>
   \<not> dedup_invariant [\<lparr>ev_id = 1, ev_body = monaco_event\<rparr>, \<lparr>ev_id = 2, ev_body = monaco_event\<rparr>]"
proof -
  have "reconcile_candidate (seeded_calendar\<lparr>faults := [True, True]\<rparr>) (cand_title monaco_cand)
          (cand_start monaco_cand) (cand_description monaco_cand) (cand_location monaco_cand) zero_counts =
        (Inr (zero_counts\<lparr>added_count := added_count zero_counts + 1\<rparr>),
         \<lparr>events = [\<lparr>ev_id = 1, ev_body = monaco_event\<rparr>, \<lparr>ev_id = 2, ev_body = monaco_event\<rparr>],
          next_id = 3, faults = []\<rparr>)"
    using reconcile_after_failed_lookups[OF _ monaco_valid,
        of "seeded_calendar\<lparr>faults := [True, True]\<rparr>" zero_counts]
    by (simp add: seeded_calendar_def monaco_body)
  then show ?thesis
    by (simp add: sync_f1_schedule_def sync_races_actions monaco_actions summary_report_def
        closing_remarks_def zero_counts_def dedup_invariant_def seeded_calendar_def)
qed

subsection \<open>C3: the end instant\<close>

text \<open>
  C3. The qualifying session of the Austin weekend starts at 22:00 UTC. It parses, it is
  in the future, and the pass that reaches it ends with \<^verbatim>\<open>ValueError\<close>: no event is
  written and no summary is reported.
\<close>

theorem late_session_aborts_pass:
  "eligible new_year [austin] = [austin_cand] \<and>
   hour (cand_start austin_cand) = 22 \<and>
   sync_f1_schedule new_year [austin] empty_calendar = (Inl ValueError, empty_calendar)"
proof -
  have v: "valid_datetime (cand_start austin_cand)" "22 \<le> hour (cand_start austin_cand)"
    by (simp_all add: austin_cand_def valid_datetime_def days_in_month_def is_leap_def)
  have f: "find_existing_event empty_calendar (cand_title austin_cand) (cand_start austin_cand)
             = (Inr None, empty_calendar)"
    using find_existing_event_quiet[OF _ v(1), of empty_calendar "cand_title austin_cand"]
    by (simp add: empty_calendar_def seen_def)
  have h: "replace_hour (cand_start austin_cand) (hour (cand_start austin_cand) + 2) = Inl ValueError"
    using v by (simp add: valid_replace_hour)
  have "reconcile_candidate empty_calendar (cand_title austin_cand) (cand_start austin_cand)
          (cand_description austin_cand) (cand_location austin_cand) zero_counts =
        (Inl ValueError, empty_calendar)"
    unfolding reconcile_candidate_def f prod.case sum.case Let_def add_or_update_event_def h
    by simp
  then show ?thesis
    by (simp add: eligible_def sync_f1_schedule_def sync_races_actions austin_actions)
       (simp add: austin_cand_def)
qed

subsection \<open>C4: remote failures\<close>

text \<open>
  C4. Both lookups for the only candidate fail with a provider error, the calendar is
  empty, and the create succeeds: the pass reports one event added.
\<close>

theorem failed_lookup_counts_added:
  "sync_f1_schedule new_year [monaco] (empty_calendar\<lparr>faults := [True, True]\<rparr>) =
     (Inr [SyncSummary 1 1 0 0 0], seeded_calendar)"
proof -
  have "reconcile_candidate (empty_calendar\<lparr>faults := [True, True]\<rparr>) (cand_title monaco_cand)
          (cand_start monaco_cand) (cand_description monaco_cand) (cand_location monaco_cand) zero_counts =
        (Inr (zero_counts\<lparr>added_count := added_count zero_counts + 1\<rparr>), seeded_calendar)"
    using reconcile_after_failed_lookups[OF _ monaco_valid,
        of "empty_calendar\<lparr>faults := [True, True]\<rparr>" zero_counts]
    by (simp add: seeded_calendar_def empty_calendar_def monaco_body)
  then show ?thesis
    by (simp add: sync_f1_schedule_def sync_races_actions monaco_actions summary_report_def
        closing_remarks_def zero_counts_def)
qed

subsection \<open>C5: the title\<close>

text \<open>
  C5, as amended. The title is \<^verbatim>\<open>F1\<close>, the stripped race name, the session label and
  the location hint. For a race name with at least one space the stripped name is the
  name without its last space and the token after it; a non-empty race name without a
  space is kept whole.
\<close>

theorem title_strips_last_token:
  "raceName r = Some n \<Longrightarrow>
     format_session_title r st =
       ''F1 '' @ strip_year n @ '' - '' @ session_label st @
         (if circuitName (circuit r) \<noteq> [] then '' ('' @ circuitName (circuit r) @ '')''
          else if country (circuit r) \<noteq> [] then '' ('' @ country (circuit r) @ '')'' else [])
     \<and> (CHR '' '' \<in> set n \<longrightarrow> (\<exists>tok. CHR '' '' \<notin> set tok \<and> n = strip_year n @ '' '' @ tok))
     \<and> (CHR '' '' \<notin> set n \<and> n \<noteq> [] \<longrightarrow> strip_year n = n)"
  using rsplit1_space[of "CHR '' ''" n]
  by (auto simp: format_session_title_def strip_year_def Let_def rsplit1_def)

theorem title_strips_last_token_melbourne:
  "raceName melbourne = Some ''Australian Grand Prix 2025'' \<and>
   CHR '' '' \<in> set ''Australian Grand Prix 2025'' \<and>
   strip_year ''Australian Grand Prix 2025'' = ''Australian Grand Prix'' \<and>
   format_session_title melbourne ''race'' = ''F1 Australian Grand Prix - Race (Albert Park)''"
  using title_strips_last_token[of melbourne "''Australian Grand Prix 2025''" "''race''"]
  by (simp add: melbourne_def albert_park_def strip_year_def rsplit1_def session_label_def
      session_labels_def)

text \<open>The claim as stated fails for a name without a space: the name stays in the title.\<close>

theorem title_keeps_single_word:
  "raceName monaco = Some ''Monaco'' \<and> CHR '' '' \<notin> set ''Monaco'' \<and>
   format_session_title monaco ''race'' = ''F1 Monaco - Race'' \<and>
   format_session_title monaco ''race'' \<noteq> ''F1  - Race''"
  by (simp add: format_session_title_def monaco_def no_circuit_def strip_year_def rsplit1_def
      session_label_def session_labels_def)

subsection \<open>C6: what the parser returns\<close>




subsection \<open>C7: the temporal filter\<close>

text \<open>
  C7. The race of the Imola weekend is listed at 13:00:00 with no designator. The time
  parses to a naive datetime, which is neither a parse failure nor before the current
  time; the filter does not classify it as future but raises \<^verbatim>\<open>TypeError\<close>, and the
  pass ends there with no event written and no summary reported.
\<close>

theorem naive_time_aborts_pass:
  "schedule imola ''race'' = Some \<lparr>date = ''2025-05-18'', time = ''13:00:00''\<rparr> \<and>
   parse_f1_datetime ''2025-05-18'' ''13:00:00'' = Inr (Some imola_start) \<and>
   tzinfo imola_start = None \<and>
   temporal_filter (utc_now new_year) ''2025-05-18'' ''13:00:00'' = Inl TypeError \<and>
   sync_f1_schedule new_year [imola] empty_calendar = (Inl TypeError, empty_calendar)"
proof -
  have a: "schedule imola ''race'' = Some \<lparr>date = ''2025-05-18'', time = ''13:00:00''\<rparr>"
    by (simp add: imola_def)
  have b: "tzinfo imola_start = None" by (simp add: imola_start_def)
  have c: "temporal_filter (utc_now new_year) ''2025-05-18'' ''13:00:00'' = Inl TypeError"
    by (rule temporal_filter_naive[OF imola_parse b])
  have d: "sync_f1_schedule new_year [imola] empty_calendar = (Inl TypeError, empty_calendar)"
    by (simp add: sync_f1_schedule_def sync_races_actions imola_actions)
  from a imola_parse b c d show ?thesis by blast
qed

subsection \<open>C8: the description\<close>

text \<open>
  C8. For a race with no round, no circuit name, no city and no country the description
  is the header followed by a newline, not the header alone.
\<close>

theorem description_trailing_newline:
  "description_parts monaco = [] \<and>
   format_session_description monaco ''race'' = ''Formula 1 Race'' @ newline \<and>
   format_session_description monaco ''race'' \<noteq> join newline (''Formula 1 Race'' # description_parts monaco)"
  by (simp add: format_session_description_def description_parts_def monaco_def no_circuit_def
      session_label_def session_labels_def newline_def)

subsection \<open>C9: the summary\<close>

text \<open>
  C9, as amended. With no race in the feed the pass ends after the warning, touches
  nothing and reports no summary. With at least one race, a filter that raises nothing
  and every eligible candidate starting at 21:59:59 or earlier, the pass reports the
  summary whatever the calendar holds and whichever remote calls fail; the two skip
  counters are exact and added plus updated is at most the number of eligible candidates.
\<close>

theorem summary_emitted:
  "(races = [] \<longrightarrow> sync_f1_schedule clock races cal = (Inr [NoRacesWarning], cal)) \<and>
   (races \<noteq> [] \<and> filter_passes clock races \<and>
    list_all (\<lambda>k. hour (cand_start k) \<le> 21) (eligible clock races) \<longrightarrow>
      (\<exists>c cal'. sync_f1_schedule clock races cal = (Inr (summary_report (length races) c), cal') \<and>
          past_count c = past_sessions clock races \<and>
          invalid_date_count c = invalid_sessions clock races \<and>
          added_count c + updated_count c \<le> length (eligible clock races)))"
proof (intro conjI impI)
  assume "races = []"
  then show "sync_f1_schedule clock races cal = (Inr [NoRacesWarning], cal)"
    by (simp add: sync_f1_schedule_def)
next
  assume a: "races \<noteq> [] \<and> filter_passes clock races \<and>
    list_all (\<lambda>k. hour (cand_start k) \<le> 21) (eligible clock races)"
  let ?as = "actions (utc_now clock) races"
  have nr: "list_all (\<lambda>a. \<not> is_raise a) ?as" using a by (simp add: filter_passes_def)
  have vh: "list_all (\<lambda>k. valid_datetime (cand_start k) \<and> hour (cand_start k) \<le> 21) (eligible_of ?as)"
    using a eligible_valid[of _ clock races] by (auto simp: list_all_iff eligible_def)
  obtain c cal' where r: "run_actions ?as zero_counts cal = (Inr c, cal')"
    and k: "past_count c = past_count zero_counts + length (filter (\<lambda>a. a = CountPast) ?as)"
      "invalid_date_count c = invalid_date_count zero_counts + length (filter (\<lambda>a. a = CountInvalid) ?as)"
      "added_count c + updated_count c \<le> added_count zero_counts + updated_count zero_counts + length (eligible_of ?as)"
    using run_actions_total[OF nr vh, of zero_counts cal] by blast
  show "\<exists>c cal'. sync_f1_schedule clock races cal = (Inr (summary_report (length races) c), cal') \<and>
          past_count c = past_sessions clock races \<and>
          invalid_date_count c = invalid_sessions clock races \<and>
          added_count c + updated_count c \<le> length (eligible clock races)"
    using a r k
    by (intro exI[of _ c] exI[of _ cal'])
       (simp add: sync_f1_schedule_def sync_races_actions zero_counts_def past_sessions_def
          invalid_sessions_def eligible_def)
qed

theorem summary_emitted_melbourne:
  "[melbourne] \<noteq> [] \<and> filter_passes new_year [melbourne] \<and>
   list_all (\<lambda>k. hour (cand_start k) \<le> 21) (eligible new_year [melbourne]) \<and>
   (\<exists>c cal'. sync_f1_schedule new_year [melbourne] flaky_calendar = (Inr (summary_report 1 c), cal') \<and>
       past_count c = 0 \<and> invalid_date_count c = 0 \<and> added_count c + updated_count c \<le> 2)"
proof -
  have h1: "[melbourne] \<noteq> []" by simp
  have h4: "filter_passes new_year [melbourne]"
    by (simp add: filter_passes_def melbourne_actions)
  have h5: "list_all (\<lambda>k. hour (cand_start k) \<le> 21) (eligible new_year [melbourne])"
    by (simp add: eligible_def melbourne_actions melbourne_race_def melbourne_qualy_def
        melbourne_start_def)
  have n: "length (eligible new_year [melbourne]) = 2"
    by (simp add: eligible_def melbourne_actions)
  have p: "past_sessions new_year [melbourne] = 0" "invalid_sessions new_year [melbourne] = 0"
    by (simp_all add: past_sessions_def invalid_sessions_def melbourne_actions)
  from summary_emitted[of "[melbourne]" new_year flaky_calendar] h1 h4 h5
  have "\<exists>c cal'. sync_f1_schedule new_year [melbourne] flaky_calendar = (Inr (summary_report 1 c), cal') \<and>
       past_count c = 0 \<and> invalid_date_count c = 0 \<and> added_count c + updated_count c \<le> 2"
    unfolding n p by simp
  with h1 h4 h5 show ?thesis by blast
qed

text \<open>The claim as stated fails for the empty feed: the report holds the warning alone.\<close>

theorem no_summary_without_races:
  "sync_f1_schedule new_year [] empty_calendar = (Inr [NoRacesWarning], empty_calendar) \<and>
   [NoRacesWarning] \<noteq> summary_report 0 zero_counts"
  by (simp add: sync_f1_schedule_def summary_report_def)

subsection \<open>C10: times without a UTC designator\<close>



end
